theory Spec2Isabelle
  imports Main "HOL-Library.Multiset"
begin

section \<open>Data model of the relational migrator (migrate.go)\<close>

text \<open>
  Go's \<open>int\<close> is taken as a 64-bit two's complement integer. Values are carried as
  \<open>int\<close>; every addition the program performs on a machine integer is followed by
  \<open>wrap64\<close>, which is the wrap-around of the hardware.
\<close>

definition wrap64 :: "int \<Rightarrow> int" where
  "wrap64 x = (x + 2 ^ 63) mod 2 ^ 64 - 2 ^ 63"

definition int64_range :: "int \<Rightarrow> bool" where
  "int64_range x = (- (2 ^ 63) \<le> x \<and> x < 2 ^ 63)"

record DatabaseConfig =
  Host :: string
  Port :: string
  Username :: string
  Password :: string
  Database :: string

record MigrationConfig =
  Source :: DatabaseConfig
  Destination :: DatabaseConfig
  BatchSize :: int
  SkipTables :: "string list"
  LogFile :: string

record ForeignKeyInfo =
  TableName :: string
  ColumnName :: string
  ReferencedTable :: string
  ReferencedColumn :: string

text \<open>\<open>sql.NullString\<close>: the string and whether the column was non-NULL.\<close>

record NullString =
  NString :: string
  Valid :: bool

text \<open>
  \<open>time.Time\<close> is a library type; it is represented by what the program observes of it:
  the instant (seconds and nanoseconds since January 1 of year 1, UTC, the library's own
  zero point) and the calendar year in the value's location.
\<close>

record GoTime =
  instant_sec :: int
  instant_nsec :: int
  calendar_year :: int

definition IsZero :: "GoTime \<Rightarrow> bool" where
  "IsZero t = (instant_sec t = 0 \<and> instant_nsec t = 0)"

definition Year :: "GoTime \<Rightarrow> int" where
  "Year t = calendar_year t"

text \<open>
  A cell scanned into an \<open>interface{}\<close>: the dynamic types the SQL driver produces.
  A float is kept as its bit pattern; the program never looks into it.
\<close>

datatype sql_value =
    VNil
  | VInt int
  | VFloat int
  | VBool bool
  | VBytes string
  | VString string
  | VTime GoTime

text \<open>
  Errors. \<open>fmt.Errorf("...: %v", err)\<close> is a wrapper that records which format string
  (and which table name) was put around the inner error. \<open>RuntimePanic\<close> is not an error
  value of the program: it stands for a Go run-time panic, which unwinds through every
  caller (nothing in the program recovers).
\<close>

datatype err_ctx =
    CtxGetTables
  | CtxScanTableName
  | CtxGetSchema string
  | CtxCreateTable
  | CtxRowCount string
  | CtxGetColumns string
  | CtxScanColumn
  | CtxGetForeignKeys string
  | CtxScanForeignKey
  | CtxDisableFK
  | CtxEnableFK
  | CtxPrepareInsert
  | CtxSelectData string
  | CtxScanRow
  | CtxInsertRow
  | CtxCreateTableFor string
  | CtxMigrateData string
  | CtxSortTables
  | CtxMigrationFailed string

datatype error =
    Driver string
  | ScanArgCount nat nat
  | CircularDependency string
  | Wrap err_ctx error
  | RuntimePanic

text \<open>
  Everything the program does to the outside is recorded, in order, in a trace: the log
  lines (as structured messages, without the time stamp), the statements sent to the
  source, and the statements sent to the destination together with their outcome
  (\<open>None\<close> for success, \<open>Some msg\<close> for the driver's error).
\<close>

datatype log_msg =
    MsgStartMigration
  | MsgFoundTables nat "string list"
  | MsgAnalyzing
  | MsgSorted "string list"
  | MsgDisabling
  | MsgMigratingTable nat nat string
  | MsgReEnabling
  | MsgCompleted
  | MsgStartTable string
  | MsgCreatedSchema string
  | MsgStartData string
  | MsgRowCount string int
  | MsgEmptyTable string
  | MsgProgress string int int
  | MsgCompletedData string int

datatype src_query =
    QShowTables
  | QShowCreateTable string
  | QCountRows string
  | QShowColumns string
  | QForeignKeys string string
  | QSelectPage string "string list" int int

datatype dst_stmt =
    CreateTableStmt string
  | SetForeignKeyChecks bool
  | PrepareInsert string "string list"
  | ExecInsert string "sql_value list"

datatype event =
    Log log_msg
  | SrcQuery src_query
  | DstExec dst_stmt "string option"

type_synonym trace = "event list"

text \<open>
  The source database is read only, and is given by its answers: \<open>Inl msg\<close> is a driver
  error. Where the program scans the answer row by row, each row is either a scan error
  or the scanned row. The destination is given by the outcome of each statement, which may
  depend on everything that happened before.
\<close>

type_synonym fk_row = "NullString \<times> NullString \<times> NullString"

record source_db =
  show_tables :: "string + (string + string) list"
  show_create_table :: "string \<Rightarrow> string + string"
  count_rows :: "string \<Rightarrow> string + int"
  show_columns :: "string \<Rightarrow> string + (string + NullString) list"
  key_column_usage :: "string \<Rightarrow> string \<Rightarrow> string + (string + fk_row) list"
  select_page :: "string \<Rightarrow> string list \<Rightarrow> int \<Rightarrow> int \<Rightarrow> string + sql_value list list"

type_synonym dest_db = "trace \<Rightarrow> dst_stmt \<Rightarrow> string option"

record DatabaseMigrator =
  sourceDB :: source_db
  destDB :: dest_db
  config :: MigrationConfig

text \<open>Reading a Go map at a missing key gives the zero value of the element type.\<close>

definition lookup_bool :: "(string \<rightharpoonup> bool) \<Rightarrow> string \<Rightarrow> bool" where
  "lookup_bool m k = (case m k of None \<Rightarrow> False | Some b \<Rightarrow> b)"

definition lookup_list :: "(string \<rightharpoonup> string list) \<Rightarrow> string \<Rightarrow> string list" where
  "lookup_list m k = (case m k of None \<Rightarrow> [] | Some xs \<Rightarrow> xs)"

section \<open>Schema inspector\<close>

text \<open>\<open>GetTables\<close>: the row loop, with the skip list.\<close>

fun scan_table_names :: "string list \<Rightarrow> (string + string) list \<Rightarrow> string list \<Rightarrow> error + string list" where
  "scan_table_names skip [] tables = Inr tables"
| "scan_table_names skip (r # rows) tables =
     (case r of
        Inl e \<Rightarrow> Inl (Wrap CtxScanTableName (Driver e))
      | Inr tableName \<Rightarrow>
          if tableName \<in> set skip then scan_table_names skip rows tables
          else scan_table_names skip rows (tables @ [tableName]))"

definition GetTables :: "DatabaseMigrator \<Rightarrow> trace \<Rightarrow> (error + string list) \<times> trace" where
  "GetTables dm tr =
     (case show_tables (sourceDB dm) of
        Inl e \<Rightarrow> (Inl (Wrap CtxGetTables (Driver e)), tr @ [SrcQuery QShowTables])
      | Inr rows \<Rightarrow>
          (scan_table_names (SkipTables (config dm)) rows [], tr @ [SrcQuery QShowTables]))"

definition GetTableSchema :: "DatabaseMigrator \<Rightarrow> string \<Rightarrow> trace \<Rightarrow> (error + string) \<times> trace" where
  "GetTableSchema dm tableName tr =
     (case show_create_table (sourceDB dm) tableName of
        Inl e \<Rightarrow> (Inl (Wrap (CtxGetSchema tableName) (Driver e)),
                  tr @ [SrcQuery (QShowCreateTable tableName)])
      | Inr createStmt \<Rightarrow> (Inr createStmt, tr @ [SrcQuery (QShowCreateTable tableName)]))"

definition GetTableRowCount :: "DatabaseMigrator \<Rightarrow> string \<Rightarrow> trace \<Rightarrow> (error + int) \<times> trace" where
  "GetTableRowCount dm tableName tr =
     (case count_rows (sourceDB dm) tableName of
        Inl e \<Rightarrow> (Inl (Wrap (CtxRowCount tableName) (Driver e)),
                  tr @ [SrcQuery (QCountRows tableName)])
      | Inr n \<Rightarrow> (Inr n, tr @ [SrcQuery (QCountRows tableName)]))"

fun scan_columns :: "(string + NullString) list \<Rightarrow> string list \<Rightarrow> error + string list" where
  "scan_columns [] columns = Inr columns"
| "scan_columns (r # rows) columns =
     (case r of
        Inl e \<Rightarrow> Inl (Wrap CtxScanColumn (Driver e))
      | Inr field \<Rightarrow> scan_columns rows (columns @ [NString field]))"

definition GetTableColumns :: "DatabaseMigrator \<Rightarrow> string \<Rightarrow> trace \<Rightarrow> (error + string list) \<times> trace" where
  "GetTableColumns dm tableName tr =
     (case show_columns (sourceDB dm) tableName of
        Inl e \<Rightarrow> (Inl (Wrap (CtxGetColumns tableName) (Driver e)),
                  tr @ [SrcQuery (QShowColumns tableName)])
      | Inr rows \<Rightarrow> (scan_columns rows [], tr @ [SrcQuery (QShowColumns tableName)]))"

fun scan_foreign_keys :: "string \<Rightarrow> (string + fk_row) list \<Rightarrow> ForeignKeyInfo list \<Rightarrow> error + ForeignKeyInfo list" where
  "scan_foreign_keys tableName [] foreignKeys = Inr foreignKeys"
| "scan_foreign_keys tableName (r # rows) foreignKeys =
     (case r of
        Inl e \<Rightarrow> Inl (Wrap CtxScanForeignKey (Driver e))
      | Inr (columnName, referencedTable, referencedColumn) \<Rightarrow>
          if Valid referencedTable \<and> Valid referencedColumn
          then scan_foreign_keys tableName rows
                 (foreignKeys @ [\<lparr>TableName = tableName, ColumnName = NString columnName,
                                  ReferencedTable = NString referencedTable,
                                  ReferencedColumn = NString referencedColumn\<rparr>])
          else scan_foreign_keys tableName rows foreignKeys)"

definition GetTableForeignKeys :: "DatabaseMigrator \<Rightarrow> string \<Rightarrow> trace \<Rightarrow> (error + ForeignKeyInfo list) \<times> trace" where
  "GetTableForeignKeys dm tableName tr =
     (case key_column_usage (sourceDB dm) (Database (Source (config dm))) tableName of
        Inl e \<Rightarrow> (Inl (Wrap (CtxGetForeignKeys tableName) (Driver e)),
                  tr @ [SrcQuery (QForeignKeys (Database (Source (config dm))) tableName)])
      | Inr rows \<Rightarrow>
          (scan_foreign_keys tableName rows [],
           tr @ [SrcQuery (QForeignKeys (Database (Source (config dm))) tableName)]))"

section \<open>Dependency sorter\<close>

text \<open>
  The innermost loop of the graph construction: the referenced table is appended to
  \<open>deps\<close> at the first entry of \<open>tables\<close> equal to it, and the loop is left.
\<close>

fun append_if_listed :: "string list \<Rightarrow> string \<Rightarrow> string list \<Rightarrow> string list" where
  "append_if_listed [] ref deps = deps"
| "append_if_listed (t # ts) ref deps =
     (if t = ref then deps @ [ref] else append_if_listed ts ref deps)"

fun collect_deps :: "string list \<Rightarrow> string \<Rightarrow> ForeignKeyInfo list \<Rightarrow> string list \<Rightarrow> string list" where
  "collect_deps tables tableName [] deps = deps"
| "collect_deps tables tableName (fk # fks) deps =
     (if ReferencedTable fk = tableName then collect_deps tables tableName fks deps
      else collect_deps tables tableName fks (append_if_listed tables (ReferencedTable fk) deps))"

type_synonym depmap = "string \<rightharpoonup> string list"

fun build_dependencies ::
  "DatabaseMigrator \<Rightarrow> string list \<Rightarrow> string list \<Rightarrow> depmap \<Rightarrow> trace \<Rightarrow> (error + depmap) \<times> trace" where
  "build_dependencies dm tables [] dependencies tr = (Inr dependencies, tr)"
| "build_dependencies dm tables (tableName # rest) dependencies tr =
     (case GetTableForeignKeys dm tableName tr of
        (Inl e, tr') \<Rightarrow> (Inl e, tr')
      | (Inr fks, tr') \<Rightarrow>
          build_dependencies dm tables rest
            (dependencies(tableName \<mapsto> collect_deps tables tableName fks [])) tr')"

record sort_state =
  visited :: "string \<rightharpoonup> bool"
  temp :: "string \<rightharpoonup> bool"
  result :: "string list"

text \<open>
  The closure \<open>visit\<close> and its loop over the dependencies of a table. The recursion of
  the program is bounded here by a counter of the remaining call depth; \<open>None\<close> means that
  the counter ran out. \<open>SortTablesByDependencies\<close> starts it above the number of tables,
  which is shown below to be always enough.
\<close>

fun visit :: "nat \<Rightarrow> depmap \<Rightarrow> sort_state \<Rightarrow> string \<Rightarrow> (error + sort_state) option"
and visit_deps :: "nat \<Rightarrow> depmap \<Rightarrow> sort_state \<Rightarrow> string list \<Rightarrow> (error + sort_state) option" where
  "visit 0 dependencies st tableName = None"
| "visit (Suc depth) dependencies st tableName =
     (if lookup_bool (temp st) tableName then Some (Inl (CircularDependency tableName))
      else if lookup_bool (visited st) tableName then Some (Inr st)
      else
        (case visit_deps depth dependencies (st\<lparr>temp := (temp st)(tableName \<mapsto> True)\<rparr>)
                (lookup_list dependencies tableName) of
           None \<Rightarrow> None
         | Some (Inl e) \<Rightarrow> Some (Inl e)
         | Some (Inr st') \<Rightarrow>
             Some (Inr (st'\<lparr>temp := (temp st')(tableName \<mapsto> False),
                           visited := (visited st')(tableName \<mapsto> True),
                           result := result st' @ [tableName]\<rparr>))))"
| "visit_deps depth dependencies st [] = Some (Inr st)"
| "visit_deps depth dependencies st (dep # deps) =
     (case visit depth dependencies st dep of
        None \<Rightarrow> None
      | Some (Inl e) \<Rightarrow> Some (Inl e)
      | Some (Inr st') \<Rightarrow> visit_deps depth dependencies st' deps)"

fun sort_loop :: "nat \<Rightarrow> depmap \<Rightarrow> sort_state \<Rightarrow> string list \<Rightarrow> (error + sort_state) option" where
  "sort_loop depth dependencies st [] = Some (Inr st)"
| "sort_loop depth dependencies st (tableName # rest) =
     (if \<not> lookup_bool (visited st) tableName
      then (case visit depth dependencies st tableName of
              None \<Rightarrow> None
            | Some (Inl e) \<Rightarrow> Some (Inl e)
            | Some (Inr st') \<Rightarrow> sort_loop depth dependencies st' rest)
      else sort_loop depth dependencies st rest)"

definition initial_sort_state :: sort_state where
  "initial_sort_state = \<lparr>visited = Map.empty, temp = Map.empty, result = []\<rparr>"

definition SortTablesByDependencies ::
  "DatabaseMigrator \<Rightarrow> string list \<Rightarrow> trace \<Rightarrow> ((error + string list) \<times> trace) option" where
  "SortTablesByDependencies dm tables tr =
     (case build_dependencies dm tables tables Map.empty tr of
        (Inl e, tr') \<Rightarrow> Some (Inl e, tr')
      | (Inr dependencies, tr') \<Rightarrow>
          (case sort_loop (Suc (length tables)) dependencies initial_sort_state tables of
             None \<Rightarrow> None
           | Some (Inl e) \<Rightarrow> Some (Inl e, tr')
           | Some (Inr st) \<Rightarrow> Some (Inr (result st), tr')))"

section \<open>Constraint toggle and schema replicator\<close>

text \<open>One statement executed on the destination: its outcome, and the trace extended by it.\<close>

definition dest_exec :: "DatabaseMigrator \<Rightarrow> dst_stmt \<Rightarrow> trace \<Rightarrow> string option \<times> trace" where
  "dest_exec dm stmt tr = (destDB dm tr stmt, tr @ [DstExec stmt (destDB dm tr stmt)])"

definition CreateTable :: "DatabaseMigrator \<Rightarrow> string \<Rightarrow> trace \<Rightarrow> (error + unit) \<times> trace" where
  "CreateTable dm createStmt tr =
     (case dest_exec dm (CreateTableStmt createStmt) tr of
        (Some e, tr') \<Rightarrow> (Inl (Wrap CtxCreateTable (Driver e)), tr')
      | (None, tr') \<Rightarrow> (Inr (), tr'))"

definition DisableForeignKeyChecks :: "DatabaseMigrator \<Rightarrow> trace \<Rightarrow> (error + unit) \<times> trace" where
  "DisableForeignKeyChecks dm tr =
     (case dest_exec dm (SetForeignKeyChecks False) tr of
        (Some e, tr') \<Rightarrow> (Inl (Wrap CtxDisableFK (Driver e)), tr')
      | (None, tr') \<Rightarrow> (Inr (), tr'))"

definition EnableForeignKeyChecks :: "DatabaseMigrator \<Rightarrow> trace \<Rightarrow> (error + unit) \<times> trace" where
  "EnableForeignKeyChecks dm tr =
     (case dest_exec dm (SetForeignKeyChecks True) tr of
        (Some e, tr') \<Rightarrow> (Inl (Wrap CtxEnableFK (Driver e)), tr')
      | (None, tr') \<Rightarrow> (Inr (), tr'))"

section \<open>Batched data mover\<close>

text \<open>The type switch over one scanned cell that is not nil.\<close>

definition sanitize_value :: "string \<Rightarrow> string \<Rightarrow> sql_value \<Rightarrow> sql_value" where
  "sanitize_value tableName colName val =
     (case val of
        VNil \<Rightarrow> VNil
      | VString v \<Rightarrow>
          if v = ''0000-00-00'' \<or> v = ''0000-00-00 00:00:00''
          then (if tableName = ''AspNetUsers'' \<and> colName = ''Birthday''
                then VString ''1970-01-01'' else VNil)
          else val
      | VBytes v \<Rightarrow>
          if v = ''0000-00-00'' \<or> v = ''0000-00-00 00:00:00''
          then (if tableName = ''AspNetUsers'' \<and> colName = ''Birthday''
                then VString ''1970-01-01'' else VNil)
          else val
      | VTime v \<Rightarrow>
          if IsZero v \<or> Year v = 0
          then (if tableName = ''AspNetUsers'' \<and> colName = ''Birthday''
                then VString ''1970-01-01'' else VNil)
          else val
      | _ \<Rightarrow> val)"

text \<open>The loop over the cells of a row: cell \<open>i\<close> is treated under the name of column \<open>i\<close>.\<close>

definition sanitize_row :: "string \<Rightarrow> string list \<Rightarrow> sql_value list \<Rightarrow> sql_value list" where
  "sanitize_row tableName columns values = map2 (sanitize_value tableName) columns values"

text \<open>
  The loop over the rows of one page. \<open>rows.Scan\<close> is given one destination per column
  and fails on a row of another width. Each row is sanitized and inserted; the first
  failure ends the migration of the table.
\<close>

fun process_rows ::
  "DatabaseMigrator \<Rightarrow> string \<Rightarrow> string list \<Rightarrow> sql_value list list \<Rightarrow> int \<Rightarrow> trace
     \<Rightarrow> (error + int) \<times> trace" where
  "process_rows dm tableName columns [] migratedRows tr = (Inr migratedRows, tr)"
| "process_rows dm tableName columns (row # rows) migratedRows tr =
     (if length row \<noteq> length columns
      then (Inl (Wrap CtxScanRow (ScanArgCount (length row) (length columns))), tr)
      else
        (case dest_exec dm (ExecInsert tableName (sanitize_row tableName columns row)) tr of
           (Some e, tr') \<Rightarrow> (Inl (Wrap CtxInsertRow (Driver e)), tr')
         | (None, tr') \<Rightarrow>
             process_rows dm tableName columns rows (wrap64 (migratedRows + 1)) tr'))"

text \<open>
  The paging loop \<open>for offset < totalRows\<close>. It need not end, so it is a partial function:
  \<open>None\<close> is the run that never returns.
\<close>

partial_function (option) paging_loop ::
  "DatabaseMigrator \<Rightarrow> string \<Rightarrow> string list \<Rightarrow> int \<Rightarrow> int \<Rightarrow> int \<Rightarrow> trace
     \<Rightarrow> ((error + int) \<times> trace) option" where
  "paging_loop dm tableName columns totalRows offset migratedRows tr =
     (if offset < totalRows then
        (case select_page (sourceDB dm) tableName columns (BatchSize (config dm)) offset of
           Inl e \<Rightarrow>
             Some (Inl (Wrap (CtxSelectData tableName) (Driver e)),
                   tr @ [SrcQuery (QSelectPage tableName columns (BatchSize (config dm)) offset)])
         | Inr rows \<Rightarrow>
             (case process_rows dm tableName columns rows migratedRows
                     (tr @ [SrcQuery (QSelectPage tableName columns (BatchSize (config dm)) offset)]) of
                (Inl e, tr') \<Rightarrow> Some (Inl e, tr')
              | (Inr migratedRows', tr') \<Rightarrow>
                  paging_loop dm tableName columns totalRows
                    (wrap64 (offset + BatchSize (config dm))) migratedRows'
                    (tr' @ [Log (MsgProgress tableName migratedRows' totalRows)])))
      else Some (Inr migratedRows, tr))"

text \<open>
  \<open>MigrateTableData\<close>. With no column, \<open>placeholders[:len(placeholders)-1]\<close> slices the
  empty string up to \<open>-1\<close>, which panics.
\<close>

definition MigrateTableData :: "DatabaseMigrator \<Rightarrow> string \<Rightarrow> trace \<Rightarrow> ((error + unit) \<times> trace) option" where
  "MigrateTableData dm tableName tr =
     (case GetTableColumns dm tableName (tr @ [Log (MsgStartData tableName)]) of
        (Inl e, tr1) \<Rightarrow> Some (Inl e, tr1)
      | (Inr columns, tr1) \<Rightarrow>
          if columns = [] then Some (Inl RuntimePanic, tr1)
          else
            (case GetTableRowCount dm tableName tr1 of
               (Inl e, tr2) \<Rightarrow> Some (Inl e, tr2)
             | (Inr totalRows, tr2) \<Rightarrow>
                 if totalRows = 0
                 then Some (Inr (), tr2 @ [Log (MsgRowCount tableName totalRows),
                                          Log (MsgEmptyTable tableName)])
                 else
                   (case dest_exec dm (PrepareInsert tableName columns)
                           (tr2 @ [Log (MsgRowCount tableName totalRows)]) of
                      (Some e, tr3) \<Rightarrow> Some (Inl (Wrap CtxPrepareInsert (Driver e)), tr3)
                    | (None, tr3) \<Rightarrow>
                        (case paging_loop dm tableName columns totalRows 0 0 tr3 of
                           None \<Rightarrow> None
                         | Some (Inl e, tr4) \<Rightarrow> Some (Inl e, tr4)
                         | Some (Inr migratedRows, tr4) \<Rightarrow>
                             Some (Inr (), tr4 @ [Log (MsgCompletedData tableName migratedRows)])))))"

section \<open>Run orchestrator\<close>

definition MigrateTable :: "DatabaseMigrator \<Rightarrow> string \<Rightarrow> trace \<Rightarrow> ((error + unit) \<times> trace) option" where
  "MigrateTable dm tableName tr =
     (case GetTableSchema dm tableName (tr @ [Log (MsgStartTable tableName)]) of
        (Inl e, tr1) \<Rightarrow> Some (Inl e, tr1)
      | (Inr createStmt, tr1) \<Rightarrow>
          (case CreateTable dm createStmt tr1 of
             (Inl e, tr2) \<Rightarrow> Some (Inl (Wrap (CtxCreateTableFor tableName) e), tr2)
           | (Inr u, tr2) \<Rightarrow>
               (case MigrateTableData dm tableName (tr2 @ [Log (MsgCreatedSchema tableName)]) of
                  None \<Rightarrow> None
                | Some (Inl e, tr3) \<Rightarrow>
                    if e = RuntimePanic then Some (Inl RuntimePanic, tr3)
                    else Some (Inl (Wrap (CtxMigrateData tableName) e), tr3)
                | Some (Inr u', tr3) \<Rightarrow> Some (Inr (), tr3))))"

text \<open>
  The loop of \<open>Migrate\<close> over the sorted tables; \<open>i\<close> is the loop index and \<open>n\<close> the
  number of sorted tables. The result of the call of \<open>EnableForeignKeyChecks\<close> on the
  failure path is dropped by the program.
\<close>

fun migrate_tables ::
  "DatabaseMigrator \<Rightarrow> nat \<Rightarrow> nat \<Rightarrow> string list \<Rightarrow> trace \<Rightarrow> ((error + unit) \<times> trace) option" where
  "migrate_tables dm i n [] tr = Some (Inr (), tr)"
| "migrate_tables dm i n (tableName # rest) tr =
     (case MigrateTable dm tableName (tr @ [Log (MsgMigratingTable (i + 1) n tableName)]) of
        None \<Rightarrow> None
      | Some (Inl e, tr1) \<Rightarrow>
          if e = RuntimePanic then Some (Inl RuntimePanic, tr1)
          else Some (Inl (Wrap (CtxMigrationFailed tableName) e),
                     snd (EnableForeignKeyChecks dm tr1))
      | Some (Inr u, tr1) \<Rightarrow> migrate_tables dm (i + 1) n rest tr1)"

definition Migrate :: "DatabaseMigrator \<Rightarrow> ((error + unit) \<times> trace) option" where
  "Migrate dm =
     (case GetTables dm [Log MsgStartMigration] of
        (Inl e, tr1) \<Rightarrow> Some (Inl (Wrap CtxGetTables e), tr1)
      | (Inr tables, tr1) \<Rightarrow>
          (case SortTablesByDependencies dm tables
                  (tr1 @ [Log (MsgFoundTables (length tables) tables), Log MsgAnalyzing]) of
             None \<Rightarrow> None
           | Some (Inl e, tr2) \<Rightarrow> Some (Inl (Wrap CtxSortTables e), tr2)
           | Some (Inr sortedTables, tr2) \<Rightarrow>
               (case DisableForeignKeyChecks dm
                       (tr2 @ [Log (MsgSorted sortedTables), Log MsgDisabling]) of
                  (Inl e, tr3) \<Rightarrow> Some (Inl (Wrap CtxDisableFK e), tr3)
                | (Inr u, tr3) \<Rightarrow>
                    (case migrate_tables dm 0 (length sortedTables) sortedTables tr3 of
                       None \<Rightarrow> None
                     | Some (Inl e, tr4) \<Rightarrow> Some (Inl e, tr4)
                     | Some (Inr u', tr4) \<Rightarrow>
                         (case EnableForeignKeyChecks dm (tr4 @ [Log MsgReEnabling]) of
                            (Inl e, tr5) \<Rightarrow> Some (Inl (Wrap CtxEnableFK e), tr5)
                          | (Inr u'', tr5) \<Rightarrow> Some (Inr (), tr5 @ [Log MsgCompleted]))))))"

section \<open>Notions used in the statements\<close>

text \<open>The position of the first occurrence of an element (the length, if there is none).\<close>

fun index_of :: "'a list \<Rightarrow> 'a \<Rightarrow> nat" where
  "index_of [] x = 0"
| "index_of (y # ys) x = (if x = y then 0 else Suc (index_of ys x))"

text \<open>
  What the specification calls a zero date: the text of an all-zero date or datetime, as a
  string or as bytes, or a date value that is the zero time or lies in year 0.
\<close>

definition is_zero_date :: "sql_value \<Rightarrow> bool" where
  "is_zero_date v =
     (v = VString ''0000-00-00'' \<or> v = VString ''0000-00-00 00:00:00''
      \<or> v = VBytes ''0000-00-00'' \<or> v = VBytes ''0000-00-00 00:00:00''
      \<or> (case v of VTime t \<Rightarrow> IsZero t \<or> Year t = 0 | _ \<Rightarrow> False))"

text \<open>The tables marked in progress, and the tables marked done.\<close>

definition tset :: "sort_state \<Rightarrow> string set" where
  "tset st = {x. lookup_bool (temp st) x}"

definition vset :: "sort_state \<Rightarrow> string set" where
  "vset st = {x. lookup_bool (visited st) x}"

text \<open>The edges of the graph held in the map \<open>dependencies\<close>: \<open>(a, b)\<close> when \<open>a\<close> depends on \<open>b\<close>.\<close>

definition dep_edges :: "depmap \<Rightarrow> (string \<times> string) set" where
  "dep_edges deps = {(a, b). b \<in> set (lookup_list deps a)}"

text \<open>
  A list respects the dependencies when every dependency of each of its entries is in the
  list, at a smaller index.
\<close>

definition topo :: "depmap \<Rightarrow> string list \<Rightarrow> bool" where
  "topo deps xs = (\<forall>a \<in> set xs. \<forall>b \<in> set (lookup_list deps a). b \<in> set xs \<and> index_of xs b < index_of xs a)"

text \<open>The invariant of the depth-first traversal.\<close>

definition sort_inv :: "depmap \<Rightarrow> sort_state \<Rightarrow> bool" where
  "sort_inv deps st = (vset st = set (result st) \<and> distinct (result st) \<and> vset st \<inter> tset st = {} \<and> topo deps (result st))"

text \<open>The statements sent to the destination in a trace, with their outcomes.\<close>

fun dest_stmts :: "trace \<Rightarrow> (dst_stmt \<times> string option) list" where
  "dest_stmts [] = []"
| "dest_stmts (DstExec stmt outcome # tr) = (stmt, outcome) # dest_stmts tr"
| "dest_stmts (e # tr) = dest_stmts tr"

text \<open>The pages read in a trace: as (limit, offset), and as the full queries.\<close>

fun page_reads :: "trace \<Rightarrow> (int \<times> int) list" where
  "page_reads [] = []"
| "page_reads (SrcQuery (QSelectPage t cols limit offset) # tr) = (limit, offset) # page_reads tr"
| "page_reads (e # tr) = page_reads tr"

fun page_queries :: "trace \<Rightarrow> src_query list" where
  "page_queries [] = []"
| "page_queries (SrcQuery (QSelectPage t cols limit offset) # tr) =
     QSelectPage t cols limit offset # page_queries tr"
| "page_queries (e # tr) = page_queries tr"

text \<open>The rows the source answers for the page at an offset (none when it fails).\<close>

definition page_rows :: "DatabaseMigrator \<Rightarrow> string \<Rightarrow> string list \<Rightarrow> int \<Rightarrow> sql_value list list" where
  "page_rows dm t cols offset =
     (case select_page (sourceDB dm) t cols (BatchSize (config dm)) offset of
        Inl e \<Rightarrow> [] | Inr rows \<Rightarrow> rows)"

text \<open>The number of pages: the row count divided by the batch size, rounded up.\<close>

definition page_count :: "int \<Rightarrow> int \<Rightarrow> nat" where
  "page_count totalRows batch = nat ((totalRows + batch - 1) div batch)"

text \<open>
  The row the specification has written for a row read: cell \<open>i\<close> is the cell \<open>i\<close> read,
  with a zero date replaced according to the table and to column \<open>i\<close>.
\<close>

definition written_row :: "string \<Rightarrow> string list \<Rightarrow> sql_value list \<Rightarrow> sql_value list" where
  "written_row tableName columns row =
     map (\<lambda>i. if is_zero_date (row ! i)
               then (if tableName = ''AspNetUsers'' \<and> columns ! i = ''Birthday''
                     then VString ''1970-01-01'' else VNil)
               else row ! i)
       [0..<length row]"

text \<open>The number of calls of \<open>EnableForeignKeyChecks\<close> in a trace, whatever their outcome.\<close>

definition enable_calls :: "trace \<Rightarrow> nat" where
  "enable_calls tr = length (filter (\<lambda>p. fst p = SetForeignKeyChecks True) (dest_stmts tr))"


section \<open>Example databases\<close>

text \<open>
  A source with the given tables (each with the tables its foreign keys reference, in the
  order of the rows of the information schema), where every table has the given columns and
  rows. It rejects a negative limit or offset, as the SQL dialect of the program does.
\<close>

definition fk_rows :: "string list \<Rightarrow> (string + fk_row) list" where
  "fk_rows refs =
     map (\<lambda>r. Inr (\<lparr>NString = ''fk'', Valid = True\<rparr>, \<lparr>NString = r, Valid = True\<rparr>,
                    \<lparr>NString = ''id'', Valid = True\<rparr>)) refs"

definition example_source ::
  "(string \<times> string list) list \<Rightarrow> string list \<Rightarrow> sql_value list list \<Rightarrow> source_db" where
  "example_source schema cols rows =
     \<lparr>show_tables = Inr (map (\<lambda>p. Inr (fst p)) schema),
      show_create_table = (\<lambda>t. Inr (''CREATE TABLE '' @ t)),
      count_rows = (\<lambda>t. Inr (int (length rows))),
      show_columns = (\<lambda>t. Inr (map (\<lambda>c. Inr \<lparr>NString = c, Valid = True\<rparr>) cols)),
      key_column_usage =
        (\<lambda>db t. Inr (fk_rows (case map_of schema t of None \<Rightarrow> [] | Some refs \<Rightarrow> refs))),
      select_page =
        (\<lambda>t cs limit offset.
           if limit < 0 \<or> offset < 0 then Inl ''syntax error''
           else Inr (take (nat limit) (drop (nat offset) rows)))\<rparr>"

definition example_config :: "int \<Rightarrow> MigrationConfig" where
  "example_config batch =
     \<lparr>Source = \<lparr>Host = ''localhost'', Port = ''3306'', Username = ''root'', Password = [],
                 Database = ''lms_dev''\<rparr>,
      Destination = \<lparr>Host = ''localhost'', Port = ''3306'', Username = ''root'', Password = [],
                      Database = ''lms_dev''\<rparr>,
      BatchSize = batch, SkipTables = [], LogFile = ''migration.log''\<rparr>"

definition example_migrator ::
  "(string \<times> string list) list \<Rightarrow> string list \<Rightarrow> sql_value list list \<Rightarrow> int \<Rightarrow> dest_db
     \<Rightarrow> DatabaseMigrator" where
  "example_migrator schema cols rows batch dest =
     \<lparr>sourceDB = example_source schema cols rows, destDB = dest, config = example_config batch\<rparr>"

definition dest_accepts_all :: dest_db where
  "dest_accepts_all tr stmt = None"

definition users_orders :: DatabaseMigrator where
  "users_orders = example_migrator [(''Orders'', [''Users'']), (''Users'', [])] [''id''] [] 1000 dest_accepts_all"

definition cyclic_ab :: DatabaseMigrator where
  "cyclic_ab = example_migrator [(''A'', [''B'']), (''B'', [''A''])] [''id''] [] 1000 dest_accepts_all"

definition self_and_outside :: DatabaseMigrator where
  "self_and_outside =
     example_migrator [(''A'', [''A'', ''B'', ''X'', ''B'']), (''B'', [])] [''id''] [] 1000 dest_accepts_all"

definition shared_dependencies :: DatabaseMigrator where
  "shared_dependencies =
     example_migrator [(''C'', [''B'', ''A'']), (''A'', []), (''B'', [])] [''id''] [] 1000
       dest_accepts_all"

definition independent_tables :: DatabaseMigrator where
  "independent_tables =
     example_migrator [(''Users'', []), (''Orders'', [''Users'']), (''Logs'', [])] [''id''] [] 1000
       dest_accepts_all"

definition rows_250 :: "sql_value list list" where
  "rows_250 = map (\<lambda>i. [VInt (int i), VBytes ''0000-00-00'']) [0..<250]"

definition orders_250 :: DatabaseMigrator where
  "orders_250 = example_migrator [(''Orders'', [])] [''id'', ''created''] rows_250 100 dest_accepts_all"

definition empty_orders :: DatabaseMigrator where
  "empty_orders = example_migrator [(''Orders'', [])] [''id''] [] 100 dest_accepts_all"

definition zero_batch :: DatabaseMigrator where
  "zero_batch = example_migrator [(''Orders'', [])] [''id''] [[VInt 1]] 0 dest_accepts_all"

definition negative_batch_rejected :: DatabaseMigrator where
  "negative_batch_rejected =
     example_migrator [(''Orders'', [])] [''id''] [[VInt 1]] (- 1) dest_accepts_all"

definition negative_batch_wraps :: DatabaseMigrator where
  "negative_batch_wraps =
     \<lparr>sourceDB = (example_source [(''Orders'', [])] [''id''] [[VInt 1]])
                   \<lparr>select_page := (\<lambda>t cs limit offset. Inr [])\<rparr>,
      destDB = dest_accepts_all, config = example_config (- (2 ^ 62))\<rparr>"



section \<open>Properties of the dependency sorter\<close>

lemma append_if_listed_eq:
  "append_if_listed ts ref deps = (if ref \<in> set ts then deps @ [ref] else deps)"
  by (induction ts) auto

lemma collect_deps_eq:
  "collect_deps tables t fks deps =
     deps @ filter (\<lambda>r. r \<noteq> t \<and> r \<in> set tables) (map ReferencedTable fks)"
  by (induction fks arbitrary: deps) (auto simp: append_if_listed_eq)

lemma lookup_bool_upd [simp]:
  "lookup_bool (m(k \<mapsto> b)) x = (if x = k then b else lookup_bool m x)"
  by (simp add: lookup_bool_def)

lemma tset_simps [simp]:
  "tset (st\<lparr>temp := (temp s)(k \<mapsto> True)\<rparr>) = insert k (tset s)"
  "tset (st\<lparr>temp := (temp s)(k \<mapsto> False)\<rparr>) = tset s - {k}"
  "tset (st\<lparr>visited := v\<rparr>) = tset st"
  "tset (st\<lparr>result := r\<rparr>) = tset st"
  by (auto simp: tset_def)

lemma vset_simps [simp]:
  "vset (st\<lparr>visited := (visited s)(k \<mapsto> True)\<rparr>) = insert k (vset s)"
  "vset (st\<lparr>temp := v\<rparr>) = vset st"
  "vset (st\<lparr>result := r\<rparr>) = vset st"
  by (auto simp: vset_def)

lemma in_tset: "lookup_bool (temp st) x \<longleftrightarrow> x \<in> tset st"
  by (simp add: tset_def)

lemma in_vset: "lookup_bool (visited st) x \<longleftrightarrow> x \<in> vset st"
  by (simp add: vset_def)

text \<open>Unfolding of a call of visit that gets past both tests.\<close>

lemma visit_Suc_Inr:
  assumes "visit (Suc n) deps st t = Some (Inr st')"
  shows "(t \<notin> tset st \<and> t \<in> vset st \<and> st' = st) \<or>
         (t \<notin> tset st \<and> t \<notin> vset st \<and>
          (\<exists>st1. visit_deps n deps (st\<lparr>temp := (temp st)(t \<mapsto> True)\<rparr>) (lookup_list deps t) = Some (Inr st1)
             \<and> st' = st1\<lparr>temp := (temp st1)(t \<mapsto> False), visited := (visited st1)(t \<mapsto> True),
                         result := result st1 @ [t]\<rparr>))"
  using assms by (auto simp: in_tset in_vset split: if_splits option.splits sum.splits)

lemma visit_deps_Cons_Inr:
  assumes "visit_deps n deps st (d # ds) = Some (Inr st')"
  shows "\<exists>st1. visit n deps st d = Some (Inr st1) \<and> visit_deps n deps st1 ds = Some (Inr st')"
  using assms by (auto split: option.splits sum.splits)

lemma visit_tset:
  "visit n deps st t = Some (Inr st') \<Longrightarrow> tset st' = tset st"
  "visit_deps n deps st ds = Some (Inr st') \<Longrightarrow> tset st' = tset st"
proof (induction n deps st t and n deps st ds arbitrary: st' and st' rule: visit_visit_deps.induct)
  case (1 dependencies st tableName)
  then show ?case by simp
next
  case (2 depth dependencies st tableName)
  from visit_Suc_Inr[OF 2(2)] show ?case
  proof (elim disjE conjE exE)
    assume "st' = st" then show ?thesis by simp
  next
    fix st1
    assume nt: "tableName \<notin> tset st" and nv: "tableName \<notin> vset st"
      and a: "visit_deps depth dependencies (st\<lparr>temp := (temp st)(tableName \<mapsto> True)\<rparr>) (lookup_list dependencies tableName) = Some (Inr st1)"
      and b: "st' = st1\<lparr>temp := (temp st1)(tableName \<mapsto> False), visited := (visited st1)(tableName \<mapsto> True), result := result st1 @ [tableName]\<rparr>"
    from nt nv have c1: "\<not> lookup_bool (temp st) tableName" and c2: "\<not> lookup_bool (visited st) tableName"
      by (simp_all add: in_tset in_vset)
    from 2(1)[OF c1 c2 a] have "tset st1 = insert tableName (tset st)" by simp
    with b nt show ?thesis by simp
  qed
next
  case (3 depth dependencies st)
  then show ?case by simp
next
  case (4 depth dependencies st dep deps)
  from visit_deps_Cons_Inr[OF 4(3)] obtain st1 where
    a: "visit depth dependencies st dep = Some (Inr st1)" and b: "visit_deps depth dependencies st1 deps = Some (Inr st')" by blast
  from 4(1)[OF a] 4(2)[OF a _ b] show ?case by simp
qed

lemma index_of_append_in: "x \<in> set xs \<Longrightarrow> index_of (xs @ ys) x = index_of xs x"
  by (induction xs) auto

lemma index_of_append_notin: "x \<notin> set xs \<Longrightarrow> index_of (xs @ ys) x = length xs + index_of ys x"
  by (induction xs) auto

lemma index_of_less: "x \<in> set xs \<Longrightarrow> index_of xs x < length xs"
  by (induction xs) auto

lemma topo_snoc:
  assumes "topo deps xs" "t \<notin> set xs" "set (lookup_list deps t) \<subseteq> set xs"
  shows "topo deps (xs @ [t])"
  unfolding topo_def
proof (intro ballI)
  fix a b assume a: "a \<in> set (xs @ [t])" and b: "b \<in> set (lookup_list deps a)"
  show "b \<in> set (xs @ [t]) \<and> index_of (xs @ [t]) b < index_of (xs @ [t]) a"
  proof (cases "a = t")
    case True
    with b assms(3) have bx: "b \<in> set xs" by auto
    moreover have "index_of (xs @ [t]) t = length xs"
      using assms(2) by (simp add: index_of_append_notin)
    ultimately show ?thesis using True
      by (simp add: index_of_append_in index_of_less)
  next
    case False
    with a have ax: "a \<in> set xs" by simp
    with assms(1) b have "b \<in> set xs" "index_of xs b < index_of xs a"
      by (auto simp: topo_def)
    with ax show ?thesis by (simp add: index_of_append_in)
  qed
qed

lemma visit_inv:
  "visit n deps st t = Some (Inr st') \<Longrightarrow> sort_inv deps st \<Longrightarrow>
     sort_inv deps st' \<and> t \<in> vset st' \<and>
     (\<exists>new. result st' = result st @ new \<and> set new \<subseteq> (dep_edges deps)\<^sup>* `` {t})"
  "visit_deps n deps st ds = Some (Inr st') \<Longrightarrow> sort_inv deps st \<Longrightarrow>
     sort_inv deps st' \<and> set ds \<subseteq> vset st' \<and>
     (\<exists>new. result st' = result st @ new \<and> set new \<subseteq> (dep_edges deps)\<^sup>* `` set ds)"
proof (induction n deps st t and n deps st ds arbitrary: st' and st' rule: visit_visit_deps.induct)
  case (1 dependencies st tableName)
  then show ?case by simp
next
  case (2 depth dependencies st tableName)
  from visit_Suc_Inr[OF 2(2)] show ?case
  proof (elim disjE conjE exE)
    assume "tableName \<in> vset st" "st' = st"
    with 2(3) show ?thesis by simp
  next
    fix st1
    let ?st0 = "st\<lparr>temp := (temp st)(tableName \<mapsto> True)\<rparr>"
    assume nt: "tableName \<notin> tset st" and nv: "tableName \<notin> vset st"
      and a: "visit_deps depth dependencies ?st0 (lookup_list dependencies tableName) = Some (Inr st1)"
      and b: "st' = st1\<lparr>temp := (temp st1)(tableName \<mapsto> False), visited := (visited st1)(tableName \<mapsto> True), result := result st1 @ [tableName]\<rparr>"
    from nt nv have c1: "\<not> lookup_bool (temp st) tableName" and c2: "\<not> lookup_bool (visited st) tableName"
      by (simp_all add: in_tset in_vset)
    have inv0: "sort_inv dependencies ?st0"
      using 2(3) nv by (auto simp: sort_inv_def)
    from 2(1)[OF c1 c2 a inv0] obtain new where
      inv1: "sort_inv dependencies st1"
      and sub: "set (lookup_list dependencies tableName) \<subseteq> vset st1"
      and res: "result st1 = result st @ new"
      and new: "set new \<subseteq> (dep_edges dependencies)\<^sup>* `` set (lookup_list dependencies tableName)"
      by auto
    have ts1: "tset st1 = insert tableName (tset st)"
      using visit_tset(2)[OF a] by simp
    with inv1 have nv1: "tableName \<notin> vset st1" by (auto simp: sort_inv_def)
    with inv1 have nr1: "tableName \<notin> set (result st1)" by (simp add: sort_inv_def)
    have tp: "topo dependencies (result st1 @ [tableName])"
      using inv1 nr1 sub by (intro topo_snoc) (auto simp: sort_inv_def)
    have inv': "sort_inv dependencies st'"
      using inv1 nr1 tp b ts1 by (auto simp: sort_inv_def)
    have "set new \<subseteq> (dep_edges dependencies)\<^sup>* `` {tableName}"
    proof
      fix x assume "x \<in> set new"
      with new obtain d where d: "d \<in> set (lookup_list dependencies tableName)"
        and r: "(d, x) \<in> (dep_edges dependencies)\<^sup>*" by auto
      from d have "(tableName, d) \<in> dep_edges dependencies" by (simp add: dep_edges_def)
      with r show "x \<in> (dep_edges dependencies)\<^sup>* `` {tableName}"
        by (auto intro: converse_rtrancl_into_rtrancl)
    qed
    then have "result st' = result st @ (new @ [tableName]) \<and>
               set (new @ [tableName]) \<subseteq> (dep_edges dependencies)\<^sup>* `` {tableName}"
      using b res by auto
    then have "\<exists>new'. result st' = result st @ new' \<and> set new' \<subseteq> (dep_edges dependencies)\<^sup>* `` {tableName}"
      by blast
    moreover have "tableName \<in> vset st'" using b by simp
    ultimately show ?thesis using inv' by blast
  qed
next
  case (3 depth dependencies st)
  then show ?case by simp
next
  case (4 depth dependencies st dep deps)
  from visit_deps_Cons_Inr[OF 4(3)] obtain st1 where
    a: "visit depth dependencies st dep = Some (Inr st1)" and b: "visit_deps depth dependencies st1 deps = Some (Inr st')" by blast
  from 4(1)[OF a 4(4)] obtain new1 where
    inv1: "sort_inv dependencies st1" and d1: "dep \<in> vset st1"
    and r1: "result st1 = result st @ new1" and n1: "set new1 \<subseteq> (dep_edges dependencies)\<^sup>* `` {dep}"
    by auto
  from 4(2)[OF a _ b inv1] obtain new2 where
    inv2: "sort_inv dependencies st'" and d2: "set deps \<subseteq> vset st'"
    and r2: "result st' = result st1 @ new2" and n2: "set new2 \<subseteq> (dep_edges dependencies)\<^sup>* `` set deps"
    by auto
  have "dep \<in> vset st'"
    using d1 inv1 inv2 r1 r2 by (auto simp: sort_inv_def)
  moreover have "result st' = result st @ (new1 @ new2)" using r1 r2 by simp
  moreover have "set (new1 @ new2) \<subseteq> (dep_edges dependencies)\<^sup>* `` set (dep # deps)"
    using n1 n2 by auto
  ultimately show ?case using inv2 d2 by (metis insert_subset list.simps(15))
qed

lemma visit_fuel:
  "finite S \<Longrightarrow> (\<forall>a. set (lookup_list deps a) \<subseteq> S) \<Longrightarrow> t \<in> S \<Longrightarrow>
     card (S - tset st) < n \<Longrightarrow> visit n deps st t \<noteq> None"
  "finite S \<Longrightarrow> (\<forall>a. set (lookup_list deps a) \<subseteq> S) \<Longrightarrow> set ds \<subseteq> S \<Longrightarrow>
     card (S - tset st) < n \<Longrightarrow> visit_deps n deps st ds \<noteq> None"
proof (induction n deps st t and n deps st ds rule: visit_visit_deps.induct)
  case (1 dependencies st tableName)
  then show ?case by simp
next
  case (2 depth dependencies st tableName)
  show ?case
  proof (cases "lookup_bool (temp st) tableName \<or> lookup_bool (visited st) tableName")
    case True
    then show ?thesis by auto
  next
    case False
    then have c1: "\<not> lookup_bool (temp st) tableName" and c2: "\<not> lookup_bool (visited st) tableName"
      by simp_all
    let ?st0 = "st\<lparr>temp := (temp st)(tableName \<mapsto> True)\<rparr>"
    have mem: "tableName \<in> S - tset st" using 2(4) c1 by (simp add: in_tset)
    have "S - tset ?st0 = (S - tset st) - {tableName}" by auto
    then have "card (S - tset ?st0) = card (S - tset st) - 1"
      using mem by simp
    moreover have "card (S - tset st) > 0"
      using mem 2(2) by (metis card_gt_0_iff empty_iff finite_Diff)
    ultimately have lt: "card (S - tset ?st0) < depth" using 2(5) by arith
    have sub: "set (lookup_list dependencies tableName) \<subseteq> S" using 2(3) by blast
    from 2(1)[OF c1 c2 2(2) 2(3) sub lt]
    show ?thesis using c1 c2 by (auto split: option.splits sum.splits)
  qed
next
  case (3 depth dependencies st)
  then show ?case by simp
next
  case (4 depth dependencies st dep deps)
  from 4(5) have d: "dep \<in> S" and ds: "set deps \<subseteq> S" by simp_all
  from 4(1)[OF 4(3) 4(4) d 4(6)] obtain r where r: "visit depth dependencies st dep = Some r"
    by blast
  show ?case
  proof (cases r)
    case (Inl e)
    with r show ?thesis by simp
  next
    case (Inr st1)
    with r have a: "visit depth dependencies st dep = Some (Inr st1)" by simp
    from visit_tset(1)[OF a] 4(6) have "card (S - tset st1) < depth" by simp
    from 4(2)[OF a _ 4(3) 4(4) ds this] a show ?thesis by simp
  qed
qed

lemma visit_error_cycle:
  "visit n deps st t = Some (Inl e) \<Longrightarrow> (\<forall>x \<in> tset st. (x, t) \<in> (dep_edges deps)\<^sup>+) \<Longrightarrow>
     \<exists>c. e = CircularDependency c \<and> (c, c) \<in> (dep_edges deps)\<^sup>+"
  "visit_deps n deps st ds = Some (Inl e) \<Longrightarrow>
     (\<forall>x \<in> tset st. \<forall>d \<in> set ds. (x, d) \<in> (dep_edges deps)\<^sup>+) \<Longrightarrow>
     \<exists>c. e = CircularDependency c \<and> (c, c) \<in> (dep_edges deps)\<^sup>+"
proof (induction n deps st t and n deps st ds rule: visit_visit_deps.induct)
  case (1 dependencies st tableName)
  then show ?case by simp
next
  case (2 depth dependencies st tableName)
  show ?case
  proof (cases "lookup_bool (temp st) tableName")
    case True
    with 2(2) have "e = CircularDependency tableName" by simp
    moreover from True 2(3) have "(tableName, tableName) \<in> (dep_edges dependencies)\<^sup>+"
      by (simp add: in_tset)
    ultimately show ?thesis by blast
  next
    case c1: False
    show ?thesis
    proof (cases "lookup_bool (visited st) tableName")
      case True
      with c1 2(2) show ?thesis by simp
    next
      case c2: False
      let ?st0 = "st\<lparr>temp := (temp st)(tableName \<mapsto> True)\<rparr>"
      from 2(2) c1 c2 have a: "visit_deps depth dependencies ?st0 (lookup_list dependencies tableName) = Some (Inl e)"
        by (auto split: option.splits sum.splits)
      have "\<forall>x \<in> tset ?st0. \<forall>d \<in> set (lookup_list dependencies tableName). (x, d) \<in> (dep_edges dependencies)\<^sup>+"
      proof (intro ballI)
        fix x d assume x: "x \<in> tset ?st0" and d: "d \<in> set (lookup_list dependencies tableName)"
        from d have e: "(tableName, d) \<in> dep_edges dependencies" by (simp add: dep_edges_def)
        show "(x, d) \<in> (dep_edges dependencies)\<^sup>+"
        proof (cases "x = tableName")
          case True
          with e show ?thesis by blast
        next
          case False
          with x have "x \<in> tset st" by simp
          with 2(3) have "(x, tableName) \<in> (dep_edges dependencies)\<^sup>+" by blast
          with e show ?thesis by (auto intro: trancl_into_trancl)
        qed
      qed
      from 2(1)[OF c1 c2 a this] show ?thesis .
    qed
  qed
next
  case (3 depth dependencies st)
  then show ?case by simp
next
  case (4 depth dependencies st dep deps)
  from 4(3) obtain r where r: "visit depth dependencies st dep = Some r"
    by (auto split: option.splits)
  show ?case
  proof (cases r)
    case (Inl e')
    with r 4(3) have a: "visit depth dependencies st dep = Some (Inl e)" by simp
    from 4(1)[OF a] 4(4) show ?thesis by simp
  next
    case (Inr st1)
    with r have a: "visit depth dependencies st dep = Some (Inr st1)" by simp
    with 4(3) have b: "visit_deps depth dependencies st1 deps = Some (Inl e)" by simp
    from visit_tset(1)[OF a] 4(4)
    have "\<forall>x \<in> tset st1. \<forall>d \<in> set deps. (x, d) \<in> (dep_edges dependencies)\<^sup>+" by simp
    from 4(2)[OF a refl b this] show ?thesis .
  qed
qed

lemma sort_loop_Inr:
  "sort_loop n deps st ts = Some (Inr st') \<Longrightarrow> sort_inv deps st \<Longrightarrow>
     sort_inv deps st' \<and> set ts \<subseteq> vset st' \<and> tset st' = tset st \<and>
     (\<exists>new. result st' = result st @ new \<and> set new \<subseteq> (dep_edges deps)\<^sup>* `` set ts)"
proof (induction ts arbitrary: st)
  case Nil
  then show ?case by simp
next
  case (Cons t ts)
  show ?case
  proof (cases "lookup_bool (visited st) t")
    case True
    with Cons.prems have a: "sort_loop n deps st ts = Some (Inr st')" by simp
    from Cons.IH[OF a Cons.prems(2)] obtain new where
      i: "sort_inv deps st'" "set ts \<subseteq> vset st'" "tset st' = tset st"
      and r: "result st' = result st @ new" and n: "set new \<subseteq> (dep_edges deps)\<^sup>* `` set ts" by auto
    from True Cons.prems(2) i(1) r have "t \<in> vset st'"
      by (auto simp: in_vset sort_inv_def)
    moreover from n have "set new \<subseteq> (dep_edges deps)\<^sup>* `` set (t # ts)" by auto
    ultimately show ?thesis using i r by auto
  next
    case False
    with Cons.prems obtain st1 where a: "visit n deps st t = Some (Inr st1)"
      and b: "sort_loop n deps st1 ts = Some (Inr st')"
      by (auto split: option.splits sum.splits)
    from visit_inv(1)[OF a Cons.prems(2)] obtain new1 where
      inv1: "sort_inv deps st1" and t1: "t \<in> vset st1"
      and r1: "result st1 = result st @ new1" and n1: "set new1 \<subseteq> (dep_edges deps)\<^sup>* `` {t}" by auto
    from Cons.IH[OF b inv1] obtain new2 where
      i: "sort_inv deps st'" "set ts \<subseteq> vset st'" "tset st' = tset st1"
      and r2: "result st' = result st1 @ new2" and n2: "set new2 \<subseteq> (dep_edges deps)\<^sup>* `` set ts" by auto
    have "t \<in> vset st'" using t1 inv1 i(1) r2 by (auto simp: sort_inv_def)
    moreover have "result st' = result st @ (new1 @ new2)" using r1 r2 by simp
    moreover have "set (new1 @ new2) \<subseteq> (dep_edges deps)\<^sup>* `` set (t # ts)" using n1 n2 by auto
    moreover have "tset st' = tset st" using i(3) visit_tset(1)[OF a] by simp
    ultimately show ?thesis using i(1,2) by (metis insert_subset list.simps(15))
  qed
qed

lemma sort_loop_Inl:
  "sort_loop n deps st ts = Some (Inl e) \<Longrightarrow> tset st = {} \<Longrightarrow>
     \<exists>c. e = CircularDependency c \<and> (c, c) \<in> (dep_edges deps)\<^sup>+"
proof (induction ts arbitrary: st)
  case Nil
  then show ?case by simp
next
  case (Cons t ts)
  show ?case
  proof (cases "lookup_bool (visited st) t")
    case True
    with Cons show ?thesis by simp
  next
    case False
    with Cons.prems(1) obtain r where r: "visit n deps st t = Some r"
      by (auto split: option.splits)
    show ?thesis
    proof (cases r)
      case (Inl e')
      with r False Cons.prems(1) have "visit n deps st t = Some (Inl e)" by simp
      from visit_error_cycle(1)[OF this] Cons.prems(2) show ?thesis by simp
    next
      case (Inr st1)
      with r have a: "visit n deps st t = Some (Inr st1)" by simp
      with False Cons.prems(1) have b: "sort_loop n deps st1 ts = Some (Inl e)" by simp
      from visit_tset(1)[OF a] Cons.prems(2) have "tset st1 = {}" by simp
      from Cons.IH[OF b this] show ?thesis .
    qed
  qed
qed

lemma sort_loop_fuel:
  "finite S \<Longrightarrow> (\<forall>a. set (lookup_list deps a) \<subseteq> S) \<Longrightarrow> set ts \<subseteq> S \<Longrightarrow>
     card (S - tset st) < n \<Longrightarrow> sort_loop n deps st ts \<noteq> None"
proof (induction ts arbitrary: st)
  case Nil
  then show ?case by simp
next
  case (Cons t ts)
  from Cons.prems(3) have t: "t \<in> S" and ts: "set ts \<subseteq> S" by simp_all
  show ?case
  proof (cases "lookup_bool (visited st) t")
    case True
    with Cons.IH[OF Cons.prems(1,2) ts Cons.prems(4)] show ?thesis by simp
  next
    case False
    from visit_fuel(1)[OF Cons.prems(1,2) t Cons.prems(4)] obtain r where
      r: "visit n deps st t = Some r" by blast
    show ?thesis
    proof (cases r)
      case (Inl e)
      with r False show ?thesis by simp
    next
      case (Inr st1)
      with r have a: "visit n deps st t = Some (Inr st1)" by simp
      from visit_tset(1)[OF a] Cons.prems(4) have "card (S - tset st1) < n" by simp
      from Cons.IH[OF Cons.prems(1,2) ts this] a False show ?thesis by simp
    qed
  qed
qed

lemma ranked_trancl:
  fixes f :: "'a \<Rightarrow> nat"
  assumes "\<And>a b. (a, b) \<in> r \<Longrightarrow> f b < f a" and "(x, y) \<in> r\<^sup>+"
  shows "f y < f x"
  using assms(2)
proof (induction rule: trancl.induct)
  case (r_into_trancl a b)
  then show ?case by (rule assms(1))
next
  case (trancl_into_trancl a b c)
  from assms(1)[OF trancl_into_trancl(2)] trancl_into_trancl(3) show ?case by simp
qed

lemma GetTableForeignKeys_fst:
  "fst (GetTableForeignKeys dm t tr) = fst (GetTableForeignKeys dm t tr0)"
  by (simp add: GetTableForeignKeys_def split: sum.splits)

lemma build_dependencies_Inr:
  "build_dependencies dm tables ts deps tr = (Inr deps', tr') \<Longrightarrow>
     (\<forall>k. k \<notin> set ts \<longrightarrow> deps' k = deps k) \<and>
     (\<forall>k \<in> set ts. \<exists>fks. fst (GetTableForeignKeys dm k tr0) = Inr fks \<and>
          deps' k = Some (collect_deps tables k fks []))"
proof (induction ts arbitrary: deps tr)
  case Nil
  then show ?case by simp
next
  case (Cons t ts)
  from Cons.prems obtain fks tr1 where
    g: "GetTableForeignKeys dm t tr = (Inr fks, tr1)"
    and b: "build_dependencies dm tables ts (deps(t \<mapsto> collect_deps tables t fks [])) tr1 = (Inr deps', tr')"
    by (auto split: prod.splits sum.splits)
  from g have g0: "fst (GetTableForeignKeys dm t tr0) = Inr fks"
    using GetTableForeignKeys_fst[of dm t tr0 tr] by simp
  from Cons.IH[OF b] have
    ih1: "\<forall>k. k \<notin> set ts \<longrightarrow> deps' k = (deps(t \<mapsto> collect_deps tables t fks [])) k"
    and ih2: "\<forall>k \<in> set ts. \<exists>fks. fst (GetTableForeignKeys dm k tr0) = Inr fks \<and> deps' k = Some (collect_deps tables k fks [])"
    by blast+
  have "\<forall>k. k \<notin> set (t # ts) \<longrightarrow> deps' k = deps k" using ih1 by simp
  moreover have "\<forall>k \<in> set (t # ts). \<exists>fks. fst (GetTableForeignKeys dm k tr0) = Inr fks \<and> deps' k = Some (collect_deps tables k fks [])"
  proof
    fix k assume k: "k \<in> set (t # ts)"
    show "\<exists>fks. fst (GetTableForeignKeys dm k tr0) = Inr fks \<and> deps' k = Some (collect_deps tables k fks [])"
    proof (cases "k \<in> set ts")
      case True
      with ih2 show ?thesis by blast
    next
      case False
      with k have "k = t" by simp
      with False ih1 g0 show ?thesis by simp
    qed
  qed
  ultimately show ?case by blast
qed

lemma build_dependencies_closed:
  assumes "build_dependencies dm tables tables Map.empty tr = (Inr deps, tr')"
  shows "a \<notin> set (lookup_list deps a) \<and> set (lookup_list deps a) \<subseteq> set tables"
proof (cases "a \<in> set tables")
  case True
  with build_dependencies_Inr[OF assms, of tr] obtain fks where
    "deps a = Some (collect_deps tables a fks [])" by blast
  then show ?thesis by (auto simp: lookup_list_def collect_deps_eq)
next
  case False
  with build_dependencies_Inr[OF assms, of tr] have "deps a = None" by simp
  then show ?thesis by (simp add: lookup_list_def)
qed

lemma dep_edges_in_tables:
  assumes "build_dependencies dm tables tables Map.empty tr = (Inr deps, tr')"
    and "(a, b) \<in> dep_edges deps"
  shows "a \<in> set tables \<and> b \<in> set tables \<and> a \<noteq> b"
proof -
  from assms(2) have b: "b \<in> set (lookup_list deps a)" by (simp add: dep_edges_def)
  have "a \<in> set tables"
  proof (rule ccontr)
    assume "a \<notin> set tables"
    with build_dependencies_Inr[OF assms(1), of tr] have "deps a = None" by simp
    with b show False by (simp add: lookup_list_def)
  qed
  with build_dependencies_closed[OF assms(1), of a] b show ?thesis by auto
qed

lemma sort_inv_initial: "sort_inv deps initial_sort_state"
  by (simp add: sort_inv_def initial_sort_state_def vset_def tset_def lookup_bool_def topo_def)

lemma tset_initial: "tset initial_sort_state = {}"
  by (simp add: initial_sort_state_def tset_def lookup_bool_def)

lemma sort_loop_total:
  assumes "build_dependencies dm tables tables Map.empty tr = (Inr deps, tr')"
  shows "sort_loop (Suc (length tables)) deps initial_sort_state tables \<noteq> None"
proof (rule sort_loop_fuel[where S = "set tables"])
  show "finite (set tables)" by simp
  show "\<forall>a. set (lookup_list deps a) \<subseteq> set tables"
    using build_dependencies_closed[OF assms] by blast
  show "set tables \<subseteq> set tables" by simp
  have "card (set tables) \<le> length tables" by (rule card_length)
  then show "card (set tables - tset initial_sort_state) < Suc (length tables)"
    by (simp add: tset_initial)
qed

lemma Sort_result:
  assumes "build_dependencies dm tables tables Map.empty tr = (Inr deps, tr')"
  shows "SortTablesByDependencies dm tables tr =
     (case sort_loop (Suc (length tables)) deps initial_sort_state tables of
        None \<Rightarrow> None
      | Some (Inl e) \<Rightarrow> Some (Inl e, tr')
      | Some (Inr st) \<Rightarrow> Some (Inr (result st), tr'))"
  using assms by (simp add: SortTablesByDependencies_def)

text \<open>The counter of the call depth never runs out: the sort always returns.\<close>

lemma SortTablesByDependencies_returns:
  "SortTablesByDependencies dm tables tr \<noteq> None"
proof (cases "build_dependencies dm tables tables Map.empty tr")
  case (Pair r tr')
  show ?thesis
  proof (cases r)
    case (Inl e)
    with Pair show ?thesis by (simp add: SortTablesByDependencies_def)
  next
    case (Inr deps)
    with Pair have b: "build_dependencies dm tables tables Map.empty tr = (Inr deps, tr')" by simp
    from sort_loop_total[OF b] show ?thesis
      unfolding Sort_result[OF b] by (auto split: sum.splits)
  qed
qed

lemma sort_loop_topo:
  assumes b: "build_dependencies dm tables tables Map.empty tr = (Inr deps, tr')"
    and s: "sort_loop (Suc (length tables)) deps initial_sort_state tables = Some (Inr st)"
  shows "distinct (result st) \<and> set (result st) = set tables \<and>
         (\<forall>a b. (a, b) \<in> dep_edges deps \<longrightarrow>
            a \<in> set (result st) \<and> b \<in> set (result st) \<and> index_of (result st) b < index_of (result st) a)"
proof -
  from sort_loop_Inr[OF s sort_inv_initial] obtain new where
    inv: "sort_inv deps st" and sub: "set tables \<subseteq> vset st"
    and r: "result st = result initial_sort_state @ new"
    and n: "set new \<subseteq> (dep_edges deps)\<^sup>* `` set tables" by auto
  have closed: "(dep_edges deps)\<^sup>* `` set tables \<subseteq> set tables"
  proof
    fix x assume "x \<in> (dep_edges deps)\<^sup>* `` set tables"
    then obtain y where y: "y \<in> set tables" and yx: "(y, x) \<in> (dep_edges deps)\<^sup>*" by auto
    from yx y show "x \<in> set tables"
      by (induction rule: rtrancl_induct) (auto dest: dep_edges_in_tables[OF b])
  qed
  from r have "result st = new" by (simp add: initial_sort_state_def)
  with n closed have "set (result st) \<subseteq> set tables" by auto
  with inv sub have eq: "set (result st) = set tables" by (auto simp: sort_inv_def)
  have "\<forall>a b. (a, b) \<in> dep_edges deps \<longrightarrow>
            a \<in> set (result st) \<and> b \<in> set (result st) \<and> index_of (result st) b < index_of (result st) a"
  proof (intro allI impI)
    fix a b assume e: "(a, b) \<in> dep_edges deps"
    from dep_edges_in_tables[OF b e] eq have a: "a \<in> set (result st)" by simp
    from e have "b \<in> set (lookup_list deps a)" by (simp add: dep_edges_def)
    with inv a show "a \<in> set (result st) \<and> b \<in> set (result st) \<and> index_of (result st) b < index_of (result st) a"
      by (auto simp: sort_inv_def topo_def)
  qed
  with inv eq show ?thesis by (simp add: sort_inv_def)
qed

text \<open>
  Claim C1. When the foreign keys of every listed table can be read and the graph of the
  retained dependencies is acyclic, \<open>SortTablesByDependencies\<close> returns an order, and for every
  retained edge (\<open>a\<close> depends on \<open>b\<close>) both tables are in the order and \<open>b\<close> is at a
  smaller index than \<open>a\<close>.
\<close>

theorem sort_acyclic_respects_dependencies:
  assumes "build_dependencies dm tables tables Map.empty tr = (Inr dependencies, tr')"
    and "acyclic (dep_edges dependencies)"
  shows "\<exists>order. SortTablesByDependencies dm tables tr = Some (Inr order, tr') \<and>
           (\<forall>a b. (a, b) \<in> dep_edges dependencies \<longrightarrow>
              a \<in> set order \<and> b \<in> set order \<and> index_of order b < index_of order a)"
proof -
  from sort_loop_total[OF assms(1)] obtain r where
    r: "sort_loop (Suc (length tables)) dependencies initial_sort_state tables = Some r" by blast
  show ?thesis
  proof (cases r)
    case (Inl e)
    with r sort_loop_Inl[OF _ tset_initial] obtain c where "(c, c) \<in> (dep_edges dependencies)\<^sup>+"
      by blast
    with assms(2) show ?thesis by (simp add: acyclic_def)
  next
    case (Inr st)
    with r have s: "sort_loop (Suc (length tables)) dependencies initial_sort_state tables = Some (Inr st)"
      by simp
    have "SortTablesByDependencies dm tables tr = Some (Inr (result st), tr')"
      using Sort_result[OF assms(1)] s by simp
    with sort_loop_topo[OF assms(1) s] show ?thesis by blast
  qed
qed

lemma sort_cyclic:
  assumes "build_dependencies dm tables tables Map.empty tr = (Inr dependencies, tr')"
    and "\<not> acyclic (dep_edges dependencies)"
  shows "\<exists>c. SortTablesByDependencies dm tables tr = Some (Inl (CircularDependency c), tr') \<and>
             (c, c) \<in> (dep_edges dependencies)\<^sup>+"
proof -
  from sort_loop_total[OF assms(1)] obtain r where
    r: "sort_loop (Suc (length tables)) dependencies initial_sort_state tables = Some r" by blast
  show ?thesis
  proof (cases r)
    case (Inl e)
    with r sort_loop_Inl[OF _ tset_initial] obtain c where
      "e = CircularDependency c" "(c, c) \<in> (dep_edges dependencies)\<^sup>+"
      by blast
    with Inl r Sort_result[OF assms(1)] show ?thesis by simp
  next
    case (Inr st)
    with r have s: "sort_loop (Suc (length tables)) dependencies initial_sort_state tables = Some (Inr st)"
      by simp
    from sort_loop_topo[OF assms(1) s]
    have "\<And>a b. (a, b) \<in> dep_edges dependencies \<Longrightarrow> index_of (result st) b < index_of (result st) a"
      by blast
    then have "\<And>x. (x, x) \<in> (dep_edges dependencies)\<^sup>+ \<Longrightarrow> False"
      using ranked_trancl[where f = "index_of (result st)" and r = "dep_edges dependencies"] by blast
    with assms(2) show ?thesis by (auto simp: acyclic_def)
  qed
qed

lemma Sort_Inr_build:
  assumes "SortTablesByDependencies dm tables tr = Some (Inr order, tr')"
  shows "\<exists>deps st. build_dependencies dm tables tables Map.empty tr = (Inr deps, tr') \<and>
           sort_loop (Suc (length tables)) deps initial_sort_state tables = Some (Inr st) \<and>
           order = result st"
  using assms by (auto simp: SortTablesByDependencies_def split: prod.splits sum.splits option.splits)

text \<open>
  Claim C9. Whenever \<open>SortTablesByDependencies\<close> succeeds, every table of the input is in
  the output exactly once and no other table is: the output has no repetition and the same
  elements as the input, and it is a permutation of the input when the input (a list of
  table names of one database) has no repetition itself.
\<close>

theorem sort_output_permutation:
  assumes "SortTablesByDependencies dm tables tr = Some (Inr order, tr')"
  shows "distinct order \<and> set order = set tables \<and> (distinct tables \<longrightarrow> mset order = mset tables)"
proof -
  from Sort_Inr_build[OF assms] obtain deps st where
    b: "build_dependencies dm tables tables Map.empty tr = (Inr deps, tr')"
    and s: "sort_loop (Suc (length tables)) deps initial_sort_state tables = Some (Inr st)"
    and e: "order = result st" by blast
  from sort_loop_topo[OF b s] e have d: "distinct order" and q: "set order = set tables" by simp_all
  then show ?thesis using set_eq_iff_mset_eq_distinct by blast
qed

lemmas example_defs = example_migrator_def example_source_def example_config_def fk_rows_def
  dest_accepts_all_def GetTableForeignKeys_def

lemma users_orders_build:
  "build_dependencies users_orders [''Orders'', ''Users''] [''Orders'', ''Users''] Map.empty [] =
     (Inr [''Orders'' \<mapsto> [''Users''], ''Users'' \<mapsto> []],
      [SrcQuery (QForeignKeys ''lms_dev'' ''Orders''), SrcQuery (QForeignKeys ''lms_dev'' ''Users'')])"
  by (simp add: users_orders_def example_defs)

lemma users_orders_sort:
  "SortTablesByDependencies users_orders [''Orders'', ''Users''] [] =
     Some (Inr [''Users'', ''Orders''],
      [SrcQuery (QForeignKeys ''lms_dev'' ''Orders''), SrcQuery (QForeignKeys ''lms_dev'' ''Users'')])"
  by (simp add: users_orders_def example_defs SortTablesByDependencies_def initial_sort_state_def lookup_bool_def lookup_list_def)

lemma users_orders_acyclic:
  "acyclic (dep_edges [''Orders'' \<mapsto> [''Users''], ''Users'' \<mapsto> []])"
proof -
  have "\<And>a b. (a, b) \<in> dep_edges [''Orders'' \<mapsto> [''Users''], ''Users'' \<mapsto> []] \<Longrightarrow>
      (if b = ''Orders'' then 1 else 0 :: nat) < (if a = ''Orders'' then 1 else 0)"
    by (auto simp: dep_edges_def lookup_list_def split: if_splits)
  from ranked_trancl[where f = "\<lambda>x. if x = ''Orders'' then 1 else 0", OF this]
  show ?thesis by (auto simp: acyclic_def)
qed

theorem sort_acyclic_respects_dependencies_witness:
  "SortTablesByDependencies users_orders [''Orders'', ''Users''] [] =
     Some (Inr [''Users'', ''Orders''],
       [SrcQuery (QForeignKeys ''lms_dev'' ''Orders''), SrcQuery (QForeignKeys ''lms_dev'' ''Users'')]) \<and>
   index_of [''Users'', ''Orders''] ''Users'' < index_of [''Users'', ''Orders''] ''Orders''"
proof -
  from sort_acyclic_respects_dependencies[OF users_orders_build users_orders_acyclic]
  obtain order where
    s: "SortTablesByDependencies users_orders [''Orders'', ''Users''] [] =
          Some (Inr order, [SrcQuery (QForeignKeys ''lms_dev'' ''Orders''),
                            SrcQuery (QForeignKeys ''lms_dev'' ''Users'')])"
    and e: "\<forall>a b. (a, b) \<in> dep_edges [''Orders'' \<mapsto> [''Users''], ''Users'' \<mapsto> []] \<longrightarrow>
              a \<in> set order \<and> b \<in> set order \<and> index_of order b < index_of order a"
    by blast
  from s users_orders_sort have o: "order = [''Users'', ''Orders'']" by simp
  have "(''Orders'', ''Users'') \<in> dep_edges [''Orders'' \<mapsto> [''Users''], ''Users'' \<mapsto> []]"
    by (simp add: dep_edges_def lookup_list_def)
  with e have "index_of order ''Users'' < index_of order ''Orders''" by blast
  with s o show ?thesis by simp
qed

theorem sort_output_permutation_witness:
  "distinct [''Users'', ''Orders''] \<and> set [''Users'', ''Orders''] = set [''Orders'', ''Users''] \<and>
   mset [''Users'', ''Orders''] = mset [''Orders'', ''Users'']"
  using sort_output_permutation[OF users_orders_sort] by simp

lemma dest_stmts_append [simp]: "dest_stmts (xs @ ys) = dest_stmts xs @ dest_stmts ys"
  by (induction xs rule: dest_stmts.induct) simp_all

lemma GetTableForeignKeys_dest:
  "dest_stmts (snd (GetTableForeignKeys dm t tr)) = dest_stmts tr"
  by (simp add: GetTableForeignKeys_def split: sum.splits)

lemma build_dependencies_dest:
  "build_dependencies dm tables ts deps tr = (r, tr') \<Longrightarrow> dest_stmts tr' = dest_stmts tr"
proof (induction ts arbitrary: deps tr)
  case Nil
  then show ?case by simp
next
  case (Cons t ts)
  obtain x tr1 where g: "GetTableForeignKeys dm t tr = (x, tr1)" by (cases "GetTableForeignKeys dm t tr")
  with GetTableForeignKeys_dest[of dm t tr] have d: "dest_stmts tr1 = dest_stmts tr" by simp
  show ?case
  proof (cases x)
    case (Inl e)
    with g Cons.prems d show ?thesis by simp
  next
    case (Inr fks)
    with g Cons.prems have "build_dependencies dm tables ts (deps(t \<mapsto> collect_deps tables t fks [])) tr1 = (r, tr')"
      by simp
    from Cons.IH[OF this] d show ?thesis by simp
  qed
qed

lemma GetTables_dest:
  "GetTables dm tr = (r, tr') \<Longrightarrow> dest_stmts tr' = dest_stmts tr"
  by (auto simp: GetTables_def split: sum.splits)

text \<open>
  Claim C3. In the graph built by \<open>SortTablesByDependencies\<close>, the dependencies of each
  listed table are the tables referenced by its foreign keys, in order, without the table
  itself and without the tables that are not in the input list. So no edge is a
  self-reference and every edge joins two tables of the input list.
\<close>

theorem dependency_graph_edges:
  assumes "build_dependencies dm tables tables Map.empty tr = (Inr dependencies, tr')"
  shows "(\<forall>t \<in> set tables. \<exists>fks. fst (GetTableForeignKeys dm t tr) = Inr fks \<and>
            lookup_list dependencies t =
              filter (\<lambda>r. r \<noteq> t \<and> r \<in> set tables) (map ReferencedTable fks)) \<and>
         (\<forall>a b. (a, b) \<in> dep_edges dependencies \<longrightarrow> a \<noteq> b \<and> a \<in> set tables \<and> b \<in> set tables)"
proof -
  have "\<forall>t \<in> set tables. \<exists>fks. fst (GetTableForeignKeys dm t tr) = Inr fks \<and>
            lookup_list dependencies t =
              filter (\<lambda>r. r \<noteq> t \<and> r \<in> set tables) (map ReferencedTable fks)"
  proof
    fix t assume "t \<in> set tables"
    with build_dependencies_Inr[OF assms, of tr] obtain fks where
      "fst (GetTableForeignKeys dm t tr) = Inr fks" "dependencies t = Some (collect_deps tables t fks [])"
      by blast
    then show "\<exists>fks. fst (GetTableForeignKeys dm t tr) = Inr fks \<and>
            lookup_list dependencies t =
              filter (\<lambda>r. r \<noteq> t \<and> r \<in> set tables) (map ReferencedTable fks)"
      by (simp add: lookup_list_def collect_deps_eq)
  qed
  moreover have "\<forall>a b. (a, b) \<in> dep_edges dependencies \<longrightarrow> a \<noteq> b \<and> a \<in> set tables \<and> b \<in> set tables"
    using dep_edges_in_tables[OF assms] by blast
  ultimately show ?thesis by blast
qed

lemma self_and_outside_build:
  "build_dependencies self_and_outside [''A'', ''B''] [''A'', ''B''] Map.empty [] =
     (Inr [''A'' \<mapsto> [''B'', ''B''], ''B'' \<mapsto> []],
      [SrcQuery (QForeignKeys ''lms_dev'' ''A''), SrcQuery (QForeignKeys ''lms_dev'' ''B'')])"
  by (simp add: self_and_outside_def example_defs)

theorem dependency_graph_edges_witness:
  "(''A'', ''A'') \<notin> dep_edges [''A'' \<mapsto> [''B'', ''B''], ''B'' \<mapsto> []] \<and>
   (''A'', ''X'') \<notin> dep_edges [''A'' \<mapsto> [''B'', ''B''], ''B'' \<mapsto> []] \<and>
   lookup_list [''A'' \<mapsto> [''B'', ''B''], ''B'' \<mapsto> []] ''A'' = [''B'', ''B'']"
  using dependency_graph_edges[OF self_and_outside_build]
  by (auto simp: lookup_list_def)

lemma sort_loop_append:
  "sort_loop n deps st (xs @ ys) =
     (case sort_loop n deps st xs of
        None \<Rightarrow> None
      | Some (Inl e) \<Rightarrow> Some (Inl e)
      | Some (Inr st1) \<Rightarrow> sort_loop n deps st1 ys)"
  by (induction xs arbitrary: st) (auto split: option.splits sum.splits)

text \<open>
  Claim C4, amended. The sort is a function of the table list and the foreign keys. A table
  \<open>b\<close> listed after a table \<open>a\<close> comes after \<open>a\<close> in the output whenever \<open>b\<close> is not a
  dependency, direct or through other tables, of \<open>a\<close> or of a table listed before \<open>a\<close>.
  (The order of two tables without dependencies is not the input order in general: see the
  counterexample below, where a table listed first depends on both.)
\<close>

theorem sort_keeps_input_order_of_unreached:
  assumes s: "SortTablesByDependencies dm tables tr = Some (Inr order, tr')"
    and b: "build_dependencies dm tables tables Map.empty tr = (Inr dependencies, tr')"
    and t: "tables = pre @ a # post"
    and p: "b \<in> set post"
    and u: "b \<notin> (dep_edges dependencies)\<^sup>* `` set (pre @ [a])"
  shows "index_of order a < index_of order b"
proof -
  from Sort_Inr_build[OF s] b obtain st where
    l: "sort_loop (Suc (length tables)) dependencies initial_sort_state tables = Some (Inr st)"
    and o: "order = result st" by auto
  from t have t': "tables = (pre @ [a]) @ post" by simp
  from l obtain st1 where
    l1: "sort_loop (Suc (length tables)) dependencies initial_sort_state (pre @ [a]) = Some (Inr st1)"
    and l2: "sort_loop (Suc (length tables)) dependencies st1 post = Some (Inr st)"
    unfolding t' sort_loop_append by (auto split: option.splits sum.splits)
  from sort_loop_Inr[OF l1 sort_inv_initial] obtain new1 where
    inv1: "sort_inv dependencies st1" and a1: "set (pre @ [a]) \<subseteq> vset st1"
    and r1: "result st1 = result initial_sort_state @ new1"
    and n1: "set new1 \<subseteq> (dep_edges dependencies)\<^sup>* `` set (pre @ [a])" by auto
  from sort_loop_Inr[OF l2 inv1] obtain new2 where
    inv2: "sort_inv dependencies st" and a2: "set post \<subseteq> vset st"
    and r2: "result st = result st1 @ new2" by auto
  from r1 have "result st1 = new1" by (simp add: initial_sort_state_def)
  with n1 u have nb: "b \<notin> set (result st1)" by auto
  from a1 inv1 have ia: "a \<in> set (result st1)" by (auto simp: sort_inv_def)
  have "index_of order a = index_of (result st1) a"
    using o r2 ia by (simp add: index_of_append_in)
  moreover have "index_of order b = length (result st1) + index_of new2 b"
    using o r2 nb by (simp add: index_of_append_notin)
  moreover have "index_of (result st1) a < length (result st1)"
    using ia by (rule index_of_less)
  ultimately show ?thesis by simp
qed

lemma shared_dependencies_build:
  "build_dependencies shared_dependencies [''C'', ''A'', ''B''] [''C'', ''A'', ''B''] Map.empty [] =
     (Inr [''C'' \<mapsto> [''B'', ''A''], ''A'' \<mapsto> [], ''B'' \<mapsto> []],
      [SrcQuery (QForeignKeys ''lms_dev'' ''C''), SrcQuery (QForeignKeys ''lms_dev'' ''A''),
       SrcQuery (QForeignKeys ''lms_dev'' ''B'')])"
  by (simp add: shared_dependencies_def example_defs)

lemma shared_dependencies_sort:
  "SortTablesByDependencies shared_dependencies [''C'', ''A'', ''B''] [] =
     Some (Inr [''B'', ''A'', ''C''],
      [SrcQuery (QForeignKeys ''lms_dev'' ''C''), SrcQuery (QForeignKeys ''lms_dev'' ''A''),
       SrcQuery (QForeignKeys ''lms_dev'' ''B'')])"
  by (simp add: shared_dependencies_def example_defs SortTablesByDependencies_def
      initial_sort_state_def lookup_bool_def lookup_list_def)

text \<open>
  The claim C4 as stated fails: \<open>A\<close> and \<open>B\<close> have no dependency at all and \<open>A\<close> is listed
  before \<open>B\<close>, but \<open>C\<close>, listed first, references \<open>B\<close> before \<open>A\<close>, and the output has
  \<open>B\<close> before \<open>A\<close>.
\<close>

theorem sort_stability_counterexample:
  "SortTablesByDependencies shared_dependencies [''C'', ''A'', ''B''] [] =
     Some (Inr [''B'', ''A'', ''C''],
      [SrcQuery (QForeignKeys ''lms_dev'' ''C''), SrcQuery (QForeignKeys ''lms_dev'' ''A''),
       SrcQuery (QForeignKeys ''lms_dev'' ''B'')]) \<and>
   lookup_list [''C'' \<mapsto> [''B'', ''A''], ''A'' \<mapsto> [], ''B'' \<mapsto> []] ''A'' = [] \<and>
   lookup_list [''C'' \<mapsto> [''B'', ''A''], ''A'' \<mapsto> [], ''B'' \<mapsto> []] ''B'' = [] \<and>
   index_of [''C'', ''A'', ''B''] ''A'' < index_of [''C'', ''A'', ''B''] ''B'' \<and>
   index_of [''B'', ''A'', ''C''] ''B'' < index_of [''B'', ''A'', ''C''] ''A''"
  using shared_dependencies_sort by (simp add: lookup_list_def)

lemma independent_tables_build:
  "build_dependencies independent_tables [''Users'', ''Orders'', ''Logs''] [''Users'', ''Orders'', ''Logs'']
       Map.empty [] =
     (Inr [''Users'' \<mapsto> [], ''Orders'' \<mapsto> [''Users''], ''Logs'' \<mapsto> []],
      [SrcQuery (QForeignKeys ''lms_dev'' ''Users''), SrcQuery (QForeignKeys ''lms_dev'' ''Orders''),
       SrcQuery (QForeignKeys ''lms_dev'' ''Logs'')])"
  by (simp add: independent_tables_def example_defs)

lemma independent_tables_sort:
  "SortTablesByDependencies independent_tables [''Users'', ''Orders'', ''Logs''] [] =
     Some (Inr [''Users'', ''Orders'', ''Logs''],
      [SrcQuery (QForeignKeys ''lms_dev'' ''Users''), SrcQuery (QForeignKeys ''lms_dev'' ''Orders''),
       SrcQuery (QForeignKeys ''lms_dev'' ''Logs'')])"
  by (simp add: independent_tables_def example_defs SortTablesByDependencies_def
      initial_sort_state_def lookup_bool_def lookup_list_def)

lemma independent_tables_unreached:
  "''Logs'' \<notin> (dep_edges [''Users'' \<mapsto> [], ''Orders'' \<mapsto> [''Users''], ''Logs'' \<mapsto> []])\<^sup>*
       `` set ([''Users''] @ [''Orders''])"
proof -
  let ?E = "dep_edges [''Users'' \<mapsto> [], ''Orders'' \<mapsto> [''Users''], ''Logs'' \<mapsto> []]"
  have "?E `` {''Users'', ''Orders''} \<subseteq> {''Users'', ''Orders''}"
    by (auto simp: dep_edges_def lookup_list_def split: if_splits)
  then have "?E\<^sup>* `` {''Users'', ''Orders''} = {''Users'', ''Orders''}"
    by (rule Image_closed_trancl)
  then show ?thesis by simp
qed

theorem sort_keeps_input_order_of_unreached_witness:
  "index_of [''Users'', ''Orders'', ''Logs''] ''Orders'' < index_of [''Users'', ''Orders'', ''Logs''] ''Logs''"
  using sort_keeps_input_order_of_unreached[OF independent_tables_sort independent_tables_build,
      of "[''Users'']" "''Orders''" "[''Logs'']" "''Logs''"] independent_tables_unreached
  by simp

lemma cyclic_ab_tables:
  "GetTables cyclic_ab [Log MsgStartMigration] =
     (Inr [''A'', ''B''], [Log MsgStartMigration, SrcQuery QShowTables])"
  by (simp add: cyclic_ab_def example_defs GetTables_def)

lemma cyclic_ab_build:
  "build_dependencies cyclic_ab [''A'', ''B''] [''A'', ''B''] Map.empty
       ([Log MsgStartMigration, SrcQuery QShowTables] @
        [Log (MsgFoundTables (length [''A'', ''B'']) [''A'', ''B'']), Log MsgAnalyzing]) =
     (Inr [''A'' \<mapsto> [''B''], ''B'' \<mapsto> [''A'']],
      [Log MsgStartMigration, SrcQuery QShowTables, Log (MsgFoundTables 2 [''A'', ''B'']),
       Log MsgAnalyzing, SrcQuery (QForeignKeys ''lms_dev'' ''A''),
       SrcQuery (QForeignKeys ''lms_dev'' ''B'')])"
  by (simp add: cyclic_ab_def example_defs)

lemma cyclic_ab_cycle: "\<not> acyclic (dep_edges [''A'' \<mapsto> [''B''], ''B'' \<mapsto> [''A'']])"
proof -
  let ?E = "dep_edges [''A'' \<mapsto> [''B''], ''B'' \<mapsto> [''A'']]"
  have "(''A'', ''B'') \<in> ?E" "(''B'', ''A'') \<in> ?E"
    by (simp_all add: dep_edges_def lookup_list_def)
  then have "(''A'', ''A'') \<in> ?E\<^sup>+" by (meson r_into_trancl' trancl_trans)
  then show ?thesis by (auto simp: acyclic_def)
qed

text \<open>
  Claim C2. When the table list and all foreign keys can be read and the retained graph has
  a cycle, \<open>SortTablesByDependencies\<close> fails with the circular-dependency error, the table it
  names lies on a cycle, and \<open>Migrate\<close> returns that error (wrapped) after a run in which no
  statement was sent to the destination: no table created, constraints never disabled.
\<close>

theorem cycle_aborts_before_destination:
  assumes g: "GetTables dm [Log MsgStartMigration] = (Inr tables, tr1)"
    and b: "build_dependencies dm tables tables Map.empty
              (tr1 @ [Log (MsgFoundTables (length tables) tables), Log MsgAnalyzing]) =
            (Inr dependencies, tr2)"
    and c: "\<not> acyclic (dep_edges dependencies)"
  shows "\<exists>t. SortTablesByDependencies dm tables
                (tr1 @ [Log (MsgFoundTables (length tables) tables), Log MsgAnalyzing]) =
              Some (Inl (CircularDependency t), tr2) \<and>
             (t, t) \<in> (dep_edges dependencies)\<^sup>+ \<and>
             Migrate dm = Some (Inl (Wrap CtxSortTables (CircularDependency t)), tr2) \<and>
             dest_stmts tr2 = []"
proof -
  from sort_cyclic[OF b c] obtain t where
    s: "SortTablesByDependencies dm tables
          (tr1 @ [Log (MsgFoundTables (length tables) tables), Log MsgAnalyzing]) =
        Some (Inl (CircularDependency t), tr2)"
    and cyc: "(t, t) \<in> (dep_edges dependencies)\<^sup>+" by blast
  have m: "Migrate dm = Some (Inl (Wrap CtxSortTables (CircularDependency t)), tr2)"
    using g s by (simp add: Migrate_def)
  from GetTables_dest[OF g] have "dest_stmts tr1 = []" by simp
  with build_dependencies_dest[OF b] have "dest_stmts tr2 = []" by simp
  with s cyc m show ?thesis by blast
qed

theorem cycle_aborts_before_destination_witness:
  "\<exists>t. SortTablesByDependencies cyclic_ab [''A'', ''B'']
          ([Log MsgStartMigration, SrcQuery QShowTables] @
           [Log (MsgFoundTables (length [''A'', ''B'']) [''A'', ''B'']), Log MsgAnalyzing]) =
        Some (Inl (CircularDependency t),
          [Log MsgStartMigration, SrcQuery QShowTables, Log (MsgFoundTables 2 [''A'', ''B'']),
           Log MsgAnalyzing, SrcQuery (QForeignKeys ''lms_dev'' ''A''),
           SrcQuery (QForeignKeys ''lms_dev'' ''B'')]) \<and>
       (t, t) \<in> (dep_edges [''A'' \<mapsto> [''B''], ''B'' \<mapsto> [''A'']])\<^sup>+ \<and>
       Migrate cyclic_ab = Some (Inl (Wrap CtxSortTables (CircularDependency t)),
          [Log MsgStartMigration, SrcQuery QShowTables, Log (MsgFoundTables 2 [''A'', ''B'']),
           Log MsgAnalyzing, SrcQuery (QForeignKeys ''lms_dev'' ''A''),
           SrcQuery (QForeignKeys ''lms_dev'' ''B'')]) \<and>
       dest_stmts [Log MsgStartMigration, SrcQuery QShowTables, Log (MsgFoundTables 2 [''A'', ''B'']),
           Log MsgAnalyzing, SrcQuery (QForeignKeys ''lms_dev'' ''A''),
           SrcQuery (QForeignKeys ''lms_dev'' ''B'')] = []"
  by (rule cycle_aborts_before_destination[OF cyclic_ab_tables cyclic_ab_build cyclic_ab_cycle])

section \<open>Properties of the batched data mover\<close>

lemma sanitize_value_spec:
  "sanitize_value tableName colName v =
     (if is_zero_date v
      then (if tableName = ''AspNetUsers'' \<and> colName = ''Birthday'' then VString ''1970-01-01'' else VNil)
      else v)"
  by (cases v) (simp_all add: sanitize_value_def is_zero_date_def)

text \<open>
  Claim C5. For every cell of a row handled by the data mover: a zero date in column
  \<open>Birthday\<close> of table \<open>AspNetUsers\<close> becomes the text \<open>1970-01-01\<close>, a zero date in any
  other table or column becomes nil, and every other value is left as it is.
\<close>

theorem sanitize_row_zero_dates:
  assumes "length columns = length row" and "i < length row"
  shows "sanitize_row tableName columns row ! i =
     (if is_zero_date (row ! i)
      then (if tableName = ''AspNetUsers'' \<and> columns ! i = ''Birthday''
            then VString ''1970-01-01'' else VNil)
      else row ! i)"
  using assms by (simp add: sanitize_row_def sanitize_value_spec)

theorem sanitize_row_zero_dates_witness:
  "sanitize_row ''AspNetUsers'' [''Id'', ''Birthday'', ''Created'']
       [VInt 7, VBytes ''0000-00-00'', VBytes ''0000-00-00 00:00:00''] ! 1 = VString ''1970-01-01''"
  using sanitize_row_zero_dates[of "[''Id'', ''Birthday'', ''Created'']"
      "[VInt 7, VBytes ''0000-00-00'', VBytes ''0000-00-00 00:00:00'']" 1 "''AspNetUsers''"]
  by (simp add: is_zero_date_def)

lemma page_reads_append [simp]: "page_reads (xs @ ys) = page_reads xs @ page_reads ys"
  by (induction xs rule: page_reads.induct) simp_all

lemma page_queries_append [simp]: "page_queries (xs @ ys) = page_queries xs @ page_queries ys"
  by (induction xs rule: page_queries.induct) simp_all

lemma wrap64_id: "int64_range x \<Longrightarrow> wrap64 x = x"
  by (simp add: wrap64_def int64_range_def)

lemma sanitize_row_written:
  assumes "length row = length columns"
  shows "sanitize_row t columns row = written_row t columns row"
proof (rule nth_equalityI)
  show "length (sanitize_row t columns row) = length (written_row t columns row)"
    using assms by (simp add: sanitize_row_def written_row_def)
next
  fix i assume "i < length (sanitize_row t columns row)"
  with assms have i: "i < length row" by (simp add: sanitize_row_def)
  with assms show "sanitize_row t columns row ! i = written_row t columns row ! i"
    by (simp add: sanitize_row_def written_row_def sanitize_value_spec)
qed

lemma process_rows_queries:
  "process_rows dm t cols rows m tr = (r, tr') \<Longrightarrow> page_queries tr' = page_queries tr"
proof (induction rows arbitrary: m tr)
  case Nil
  then show ?case by simp
next
  case (Cons row rows)
  show ?case
  proof (cases "length row = length cols")
    case False
    with Cons.prems show ?thesis by simp
  next
    case True
    show ?thesis
    proof (cases "destDB dm tr (ExecInsert t (sanitize_row t cols row))")
      case None
      with True Cons.prems have
        "process_rows dm t cols rows (wrap64 (m + 1))
           (tr @ [DstExec (ExecInsert t (sanitize_row t cols row)) None]) = (r, tr')"
        by (simp add: dest_exec_def)
      from Cons.IH[OF this] show ?thesis by simp
    next
      case (Some e)
      with True Cons.prems show ?thesis by (auto simp: dest_exec_def)
    qed
  qed
qed

lemma process_rows_stmts:
  "process_rows dm t cols rows m tr = (Inr m', tr') \<Longrightarrow>
     dest_stmts tr' = dest_stmts tr @ map (\<lambda>row. (ExecInsert t (written_row t cols row), None)) rows \<and>
     (\<forall>row \<in> set rows. length row = length cols)"
proof (induction rows arbitrary: m tr)
  case Nil
  then show ?case by simp
next
  case (Cons row rows)
  show ?case
  proof (cases "length row = length cols")
    case False
    with Cons.prems show ?thesis by simp
  next
    case True
    show ?thesis
    proof (cases "destDB dm tr (ExecInsert t (sanitize_row t cols row))")
      case None
      with True Cons.prems have
        "process_rows dm t cols rows (wrap64 (m + 1))
           (tr @ [DstExec (ExecInsert t (sanitize_row t cols row)) None]) = (Inr m', tr')"
        by (simp add: dest_exec_def)
      from Cons.IH[OF this] True show ?thesis by (simp add: sanitize_row_written)
    next
      case (Some e)
      with True Cons.prems show ?thesis by (auto simp: dest_exec_def)
    qed
  qed
qed

lemma process_rows_succeeds:
  "(\<forall>row \<in> set rows. length row = length cols) \<Longrightarrow> (\<forall>tr stmt. destDB dm tr stmt = None) \<Longrightarrow>
     \<exists>m' tr'. process_rows dm t cols rows m tr = (Inr m', tr')"
  by (induction rows arbitrary: m tr) (simp_all add: dest_exec_def)

lemma page_count_0: "totalRows \<le> offset \<Longrightarrow> 1 \<le> b \<Longrightarrow> page_count (totalRows - offset) b = 0"
proof -
  assume a: "totalRows \<le> offset" "1 \<le> b"
  then have "totalRows - offset + b - 1 \<le> b - 1" by simp
  then have "(totalRows - offset + b - 1) div b \<le> (b - 1) div b"
    using a(2) by (intro zdiv_mono1) simp_all
  also have "(b - 1) div b = 0" using a(2) by simp
  finally show ?thesis by (simp add: page_count_def)
qed

lemma page_count_Suc:
  assumes "offset < totalRows" "1 \<le> b"
  shows "page_count (totalRows - offset) b = Suc (page_count (totalRows - (offset + b)) b)"
proof -
  have "totalRows - offset + b - 1 = (totalRows - (offset + b) + b - 1) + b" by simp
  then have "(totalRows - offset + b - 1) div b = (totalRows - (offset + b) + b - 1) div b + 1"
    using assms(2) by (metis div_add_self2 not_one_le_zero)
  moreover have "0 \<le> (totalRows - (offset + b) + b - 1) div b"
    using assms by (simp add: pos_imp_zdiv_nonneg_iff)
  ultimately show ?thesis by (simp add: page_count_def)
qed

lemma upt_Suc_map: "map f [0..<Suc n] = f 0 # map (\<lambda>k. f (Suc k)) [0..<n]"
  by (simp add: upt_conv_Cons map_Suc_upt[symmetric] comp_def del: upt_Suc)

lemma paging_loop_terminates:
  assumes "1 \<le> BatchSize (config dm)" and "totalRows + BatchSize (config dm) \<le> 2 ^ 63"
  shows "0 \<le> offset \<Longrightarrow> paging_loop dm t cols totalRows offset m tr \<noteq> None"
proof (induction "nat (totalRows - offset)" arbitrary: offset m tr rule: less_induct)
  case less
  let ?b = "BatchSize (config dm)"
  show ?case
  proof (cases "offset < totalRows")
    case False
    then show ?thesis by (subst paging_loop.simps) simp
  next
    case True
    have w: "wrap64 (offset + ?b) = offset + ?b"
      using True less.prems assms by (intro wrap64_id) (simp add: int64_range_def)
    have dec: "nat (totalRows - (offset + ?b)) < nat (totalRows - offset)"
      using True assms(1) by simp
    have nn: "0 \<le> offset + ?b" using less.prems assms(1) by simp
    show ?thesis
    proof (cases "select_page (sourceDB dm) t cols ?b offset")
      case (Inl e)
      with True show ?thesis by (subst paging_loop.simps) simp
    next
      case (Inr rows)
      obtain r tr1 where p: "process_rows dm t cols rows m (tr @ [SrcQuery (QSelectPage t cols ?b offset)]) = (r, tr1)"
        by (cases "process_rows dm t cols rows m (tr @ [SrcQuery (QSelectPage t cols ?b offset)])")
      show ?thesis
      proof (cases r)
        case (Inl e)
        with True Inr p show ?thesis by (subst paging_loop.simps) simp
      next
        case (Inr m1)
        from less.hyps[OF dec nn]
        have "paging_loop dm t cols totalRows (offset + ?b) m1 (tr1 @ [Log (MsgProgress t m1 totalRows)]) \<noteq> None" .
        with True \<open>select_page (sourceDB dm) t cols ?b offset = Inr rows\<close> p Inr w
        show ?thesis by (subst paging_loop.simps) simp
      qed
    qed
  qed
qed

lemma paging_loop_stmts:
  assumes "1 \<le> BatchSize (config dm)" and "totalRows + BatchSize (config dm) \<le> 2 ^ 63"
  shows "0 \<le> offset \<Longrightarrow> paging_loop dm t cols totalRows offset m tr = Some (Inr m', tr') \<Longrightarrow>
     page_queries tr' = page_queries tr @
        map (\<lambda>k. QSelectPage t cols (BatchSize (config dm)) (offset + int k * BatchSize (config dm)))
          [0..<page_count (totalRows - offset) (BatchSize (config dm))] \<and>
     dest_stmts tr' = dest_stmts tr @
        map (\<lambda>row. (ExecInsert t (written_row t cols row), None))
          (concat (map (\<lambda>k. page_rows dm t cols (offset + int k * BatchSize (config dm)))
             [0..<page_count (totalRows - offset) (BatchSize (config dm))])) \<and>
     (\<forall>k < page_count (totalRows - offset) (BatchSize (config dm)).
        select_page (sourceDB dm) t cols (BatchSize (config dm))
          (offset + int k * BatchSize (config dm)) =
          Inr (page_rows dm t cols (offset + int k * BatchSize (config dm))) \<and>
        (\<forall>row \<in> set (page_rows dm t cols (offset + int k * BatchSize (config dm))).
           length row = length cols))"
proof (induction "nat (totalRows - offset)" arbitrary: offset m tr rule: less_induct)
  case less
  let ?b = "BatchSize (config dm)"
  show ?case
  proof (cases "offset < totalRows")
    case False
    with less.prems(2) have "tr' = tr" by (subst (asm) paging_loop.simps) simp
    moreover have "page_count (totalRows - offset) ?b = 0" using False assms(1) by (simp add: page_count_0)
    ultimately show ?thesis by simp
  next
    case True
    have w: "wrap64 (offset + ?b) = offset + ?b"
      using True less.prems assms by (intro wrap64_id) (simp add: int64_range_def)
    have dec: "nat (totalRows - (offset + ?b)) < nat (totalRows - offset)"
      using True assms(1) by simp
    have nn: "0 \<le> offset + ?b" using less.prems assms(1) by simp
    from less.prems(2) True obtain rows m1 tr1 where
      sel: "select_page (sourceDB dm) t cols ?b offset = Inr rows"
      and p: "process_rows dm t cols rows m (tr @ [SrcQuery (QSelectPage t cols ?b offset)]) = (Inr m1, tr1)"
      and rec: "paging_loop dm t cols totalRows (offset + ?b) m1 (tr1 @ [Log (MsgProgress t m1 totalRows)]) = Some (Inr m', tr')"
      by (subst (asm) paging_loop.simps) (auto simp: w split: sum.splits prod.splits)
    let ?n = "page_count (totalRows - (offset + ?b)) ?b"
    from less.hyps[OF dec nn rec] have
      ih1: "page_queries tr' = page_queries (tr1 @ [Log (MsgProgress t m1 totalRows)]) @
              map (\<lambda>k. QSelectPage t cols ?b (offset + ?b + int k * ?b)) [0..<?n]"
      and ih2: "dest_stmts tr' = dest_stmts (tr1 @ [Log (MsgProgress t m1 totalRows)]) @
              map (\<lambda>row. (ExecInsert t (written_row t cols row), None))
                (concat (map (\<lambda>k. page_rows dm t cols (offset + ?b + int k * ?b)) [0..<?n]))"
      and ih3: "\<forall>k < ?n.
        select_page (sourceDB dm) t cols ?b (offset + ?b + int k * ?b) =
          Inr (page_rows dm t cols (offset + ?b + int k * ?b)) \<and>
        (\<forall>row \<in> set (page_rows dm t cols (offset + ?b + int k * ?b)). length row = length cols)"
      by simp_all
    have pc: "page_count (totalRows - offset) ?b = Suc ?n"
      using True assms(1) by (rule page_count_Suc)
    have pr: "page_rows dm t cols offset = rows" using sel by (simp add: page_rows_def)
    have alg: "\<And>k. offset + (1 + int k) * ?b = offset + ?b + int k * ?b"
      by (simp add: algebra_simps)
    note ps = process_rows_stmts[OF p]
    have c1: "page_queries tr' = page_queries tr @
        map (\<lambda>k. QSelectPage t cols ?b (offset + int k * ?b)) [0..<page_count (totalRows - offset) ?b]"
      using ih1 process_rows_queries[OF p] unfolding pc upt_Suc_map
      by (simp add: alg)
    have c2: "dest_stmts tr' = dest_stmts tr @
        map (\<lambda>row. (ExecInsert t (written_row t cols row), None))
          (concat (map (\<lambda>k. page_rows dm t cols (offset + int k * ?b))
             [0..<page_count (totalRows - offset) ?b]))"
      using ih2 ps pr unfolding pc upt_Suc_map
      by (simp add: alg)
    have c3: "\<forall>k < page_count (totalRows - offset) ?b.
        select_page (sourceDB dm) t cols ?b (offset + int k * ?b) =
          Inr (page_rows dm t cols (offset + int k * ?b)) \<and>
        (\<forall>row \<in> set (page_rows dm t cols (offset + int k * ?b)). length row = length cols)"
    proof (intro allI impI)
      fix k assume k: "k < page_count (totalRows - offset) ?b"
      show "select_page (sourceDB dm) t cols ?b (offset + int k * ?b) =
          Inr (page_rows dm t cols (offset + int k * ?b)) \<and>
        (\<forall>row \<in> set (page_rows dm t cols (offset + int k * ?b)). length row = length cols)"
      proof (cases k)
        case 0
        with sel pr ps show ?thesis by simp
      next
        case (Suc j)
        with k pc have "j < ?n" by simp
        with ih3 Suc show ?thesis by (simp add: alg)
      qed
    qed
    from c1 c2 c3 show ?thesis by blast
  qed
qed

lemma paging_loop_succeeds:
  assumes "1 \<le> BatchSize (config dm)" and "totalRows + BatchSize (config dm) \<le> 2 ^ 63"
    and pages: "\<forall>offset \<ge> 0. \<exists>rows. select_page (sourceDB dm) t cols (BatchSize (config dm)) offset = Inr rows \<and>
                 (\<forall>row \<in> set rows. length row = length cols)"
    and dest: "\<forall>tr stmt. destDB dm tr stmt = None"
  shows "0 \<le> offset \<Longrightarrow> \<exists>m' tr'. paging_loop dm t cols totalRows offset m tr = Some (Inr m', tr')"
proof (induction "nat (totalRows - offset)" arbitrary: offset m tr rule: less_induct)
  case less
  let ?b = "BatchSize (config dm)"
  show ?case
  proof (cases "offset < totalRows")
    case False
    then show ?thesis by (subst paging_loop.simps) simp
  next
    case True
    have w: "wrap64 (offset + ?b) = offset + ?b"
      using True less.prems assms by (intro wrap64_id) (simp add: int64_range_def)
    have dec: "nat (totalRows - (offset + ?b)) < nat (totalRows - offset)"
      using True assms(1) by simp
    have nn: "0 \<le> offset + ?b" using less.prems assms(1) by simp
    from pages less.prems obtain rows where
      sel: "select_page (sourceDB dm) t cols ?b offset = Inr rows"
      and wd: "\<forall>row \<in> set rows. length row = length cols" by blast
    from process_rows_succeeds[OF wd dest] obtain m1 tr1 where
      p: "process_rows dm t cols rows m (tr @ [SrcQuery (QSelectPage t cols ?b offset)]) = (Inr m1, tr1)"
      by blast
    from less.hyps[OF dec nn] obtain m' tr' where
      "paging_loop dm t cols totalRows (offset + ?b) m1 (tr1 @ [Log (MsgProgress t m1 totalRows)]) = Some (Inr m', tr')"
      by blast
    with True sel p w show ?thesis by (subst paging_loop.simps) simp
  qed
qed

lemma paging_loop_diverges:
  assumes b0: "BatchSize (config dm) = 0"
    and sel: "select_page (sourceDB dm) t cols 0 offset = Inr rows"
    and ok: "\<forall>m tr. \<exists>m' tr'. process_rows dm t cols rows m tr = (Inr m', tr')"
    and lt: "offset < totalRows" and rg: "int64_range offset"
  shows "paging_loop dm t cols totalRows offset m tr = None"
proof (rule ccontr)
  assume "paging_loop dm t cols totalRows offset m tr \<noteq> None"
  then obtain y where y: "paging_loop dm t cols totalRows offset m tr = Some y" by blast
  have "dm = dm \<and> t = t \<and> cols = cols \<and> totalRows = totalRows \<and> offset = offset \<longrightarrow> False"
  proof (rule paging_loop.raw_induct[where P = "\<lambda>dm' t' cols' total' offset' m0 tr0 y'.
        dm' = dm \<and> t' = t \<and> cols' = cols \<and> total' = totalRows \<and> offset' = offset \<longrightarrow> False",
        OF _ y], goal_cases)
    case (1 loop dm' t' cols' total' offset' m0 tr0 y')
    show ?case
    proof
      assume eq: "dm' = dm \<and> t' = t \<and> cols' = cols \<and> total' = totalRows \<and> offset' = offset"
      from ok obtain m1 tr1 where
        p: "process_rows dm t cols rows m0 (tr0 @ [SrcQuery (QSelectPage t cols 0 offset)]) = (Inr m1, tr1)"
        by blast
      from 1(2) eq lt sel b0 p wrap64_id[OF rg]
      have "loop dm t cols totalRows offset m1 (tr1 @ [Log (MsgProgress t m1 totalRows)]) = Some y'"
        by simp
      from 1(1)[OF this] show False by simp
    qed
  qed
  then show False by simp
qed

lemma GetTableColumns_trace:
  "GetTableColumns dm t tr = (r, tr1) \<Longrightarrow> tr1 = tr @ [SrcQuery (QShowColumns t)]"
  by (auto simp: GetTableColumns_def split: sum.splits)

lemma MigrateTableData_nonempty:
  assumes "GetTableColumns dm t (tr @ [Log (MsgStartData t)]) = (Inr columns, tr1)"
    and "columns \<noteq> []"
    and "count_rows (sourceDB dm) t = Inr totalRows" and "totalRows \<noteq> 0"
  shows "MigrateTableData dm t tr =
     (case destDB dm (tr @ [Log (MsgStartData t), SrcQuery (QShowColumns t), SrcQuery (QCountRows t),
                             Log (MsgRowCount t totalRows)]) (PrepareInsert t columns) of
        Some e \<Rightarrow> Some (Inl (Wrap CtxPrepareInsert (Driver e)),
                    tr @ [Log (MsgStartData t), SrcQuery (QShowColumns t), SrcQuery (QCountRows t),
                          Log (MsgRowCount t totalRows),
                          DstExec (PrepareInsert t columns) (Some e)])
      | None \<Rightarrow>
         (case paging_loop dm t columns totalRows 0 0
                 (tr @ [Log (MsgStartData t), SrcQuery (QShowColumns t), SrcQuery (QCountRows t),
                        Log (MsgRowCount t totalRows), DstExec (PrepareInsert t columns) None]) of
            None \<Rightarrow> None
          | Some (Inl e, tr4) \<Rightarrow> Some (Inl e, tr4)
          | Some (Inr migratedRows, tr4) \<Rightarrow>
              Some (Inr (), tr4 @ [Log (MsgCompletedData t migratedRows)])))"
  using assms GetTableColumns_trace[OF assms(1)]
  by (simp add: MigrateTableData_def GetTableRowCount_def dest_exec_def split: option.splits)

text \<open>
  Claim C7. For a table (with at least one column, as every table of the source has) whose
  row count is 0, \<open>MigrateTableData\<close> returns success after reading the column list and
  the row count and writing two log lines: no page is read, and no statement, not even the
  preparation of the insert, is sent to the destination.
\<close>

theorem empty_table_is_noop:
  assumes "GetTableColumns dm t (tr @ [Log (MsgStartData t)]) = (Inr columns, tr1)"
    and "columns \<noteq> []"
    and "count_rows (sourceDB dm) t = Inr 0"
  shows "MigrateTableData dm t tr =
           Some (Inr (), tr @ [Log (MsgStartData t), SrcQuery (QShowColumns t),
                               SrcQuery (QCountRows t), Log (MsgRowCount t 0),
                               Log (MsgEmptyTable t)]) \<and>
         page_reads (snd (the (MigrateTableData dm t tr))) = page_reads tr \<and>
         dest_stmts (snd (the (MigrateTableData dm t tr))) = dest_stmts tr"
  using assms GetTableColumns_trace[OF assms(1)]
  by (simp add: MigrateTableData_def GetTableRowCount_def)

text \<open>
  Claim C6. In a run of \<open>MigrateTableData\<close> that succeeds, for a row count of at least 1 and
  a batch size of at least 1 (and row count plus batch size within the range of \<open>int\<close>):
  the pages read are exactly the queries for the columns of the table, with the batch size
  as limit, at the offsets \<open>0, batchSize, 2 * batchSize, ...\<close>, as many as the row count
  divided by the batch size, rounded up, whatever each page returned; the statements sent
  to the destination are the preparation of the insert into the same table for the same
  columns in the same order, and then one insert into that table for each row of these
  pages, in order, whose cell \<open>i\<close> is the cell \<open>i\<close> read, sanitized under the name of column
  \<open>i\<close>; and every row read has one cell per column. With 250 rows and a batch size of 100
  these are the three pages at 0, 100 and 200, of 100, 100 and 50 rows, and 250 inserts.
\<close>

theorem paged_migration_reads_and_writes:
  assumes c: "GetTableColumns dm t (tr @ [Log (MsgStartData t)]) = (Inr columns, tr1)"
    and ne: "columns \<noteq> []"
    and n: "count_rows (sourceDB dm) t = Inr totalRows" and pos: "1 \<le> totalRows"
    and b: "1 \<le> BatchSize (config dm)" and rg: "totalRows + BatchSize (config dm) \<le> 2 ^ 63"
    and ok: "MigrateTableData dm t tr = Some (Inr (), tr')"
  shows "page_queries tr' = page_queries tr @
           map (\<lambda>k. QSelectPage t columns (BatchSize (config dm)) (int k * BatchSize (config dm)))
             [0..<page_count totalRows (BatchSize (config dm))] \<and>
         dest_stmts tr' = dest_stmts tr @
           (PrepareInsert t columns, None) #
           map (\<lambda>row. (ExecInsert t (written_row t columns row), None))
             (concat (map (\<lambda>k. page_rows dm t columns (int k * BatchSize (config dm)))
                [0..<page_count totalRows (BatchSize (config dm))])) \<and>
         (\<forall>k < page_count totalRows (BatchSize (config dm)).
            select_page (sourceDB dm) t columns (BatchSize (config dm))
              (int k * BatchSize (config dm)) =
              Inr (page_rows dm t columns (int k * BatchSize (config dm))) \<and>
            (\<forall>row \<in> set (page_rows dm t columns (int k * BatchSize (config dm))).
               length row = length columns))"
proof -
  let ?tr0 = "tr @ [Log (MsgStartData t), SrcQuery (QShowColumns t), SrcQuery (QCountRows t),
                    Log (MsgRowCount t totalRows), DstExec (PrepareInsert t columns) None]"
  from pos have nz: "totalRows \<noteq> 0" by simp
  from ok obtain m tr4 where
    l: "paging_loop dm t columns totalRows 0 0 ?tr0 = Some (Inr m, tr4)"
    and e: "tr' = tr4 @ [Log (MsgCompletedData t m)]"
    unfolding MigrateTableData_nonempty[OF c ne n nz]
    by (auto split: option.splits sum.splits prod.splits)
  from paging_loop_stmts[OF b rg _ l] e show ?thesis by simp
qed

lemma MigrateTableData_succeeds:
  assumes c: "GetTableColumns dm t (tr @ [Log (MsgStartData t)]) = (Inr columns, tr1)"
    and ne: "columns \<noteq> []"
    and n: "count_rows (sourceDB dm) t = Inr totalRows" and pos: "1 \<le> totalRows"
    and b: "1 \<le> BatchSize (config dm)" and rg: "totalRows + BatchSize (config dm) \<le> 2 ^ 63"
    and pages: "\<forall>offset \<ge> 0. \<exists>rows. select_page (sourceDB dm) t columns (BatchSize (config dm)) offset = Inr rows \<and>
                 (\<forall>row \<in> set rows. length row = length columns)"
    and dest: "\<forall>tr stmt. destDB dm tr stmt = None"
  shows "\<exists>tr'. MigrateTableData dm t tr = Some (Inr (), tr')"
proof -
  from pos have nz: "totalRows \<noteq> 0" by simp
  from paging_loop_succeeds[OF b rg pages dest, of 0] obtain m' tr' where
    "paging_loop dm t columns totalRows 0 0
       (tr @ [Log (MsgStartData t), SrcQuery (QShowColumns t), SrcQuery (QCountRows t),
              Log (MsgRowCount t totalRows), DstExec (PrepareInsert t columns) None]) = Some (Inr m', tr')"
    by blast
  then show ?thesis
    unfolding MigrateTableData_nonempty[OF c ne n nz] using dest by simp
qed

lemmas mover_defs = example_migrator_def example_source_def example_config_def
  dest_accepts_all_def GetTableColumns_def GetTableRowCount_def dest_exec_def

theorem empty_table_is_noop_witness:
  "MigrateTableData empty_orders ''Orders'' [] =
     Some (Inr (), [Log (MsgStartData ''Orders''), SrcQuery (QShowColumns ''Orders''),
                    SrcQuery (QCountRows ''Orders''), Log (MsgRowCount ''Orders'' 0),
                    Log (MsgEmptyTable ''Orders'')]) \<and>
   page_reads (snd (the (MigrateTableData empty_orders ''Orders'' []))) = [] \<and>
   dest_stmts (snd (the (MigrateTableData empty_orders ''Orders'' []))) = []"
  using empty_table_is_noop[of empty_orders "''Orders''" "[]" "[''id'']"
      "[Log (MsgStartData ''Orders''), SrcQuery (QShowColumns ''Orders'')]"]
  by (simp add: empty_orders_def mover_defs)

lemma length_rows_250: "length rows_250 = 250"
  by (simp add: rows_250_def)

lemma rows_250_pages:
  "take 100 rows_250 @ take 100 (drop 100 rows_250) @ take 100 (drop 200 rows_250) = rows_250"
proof -
  have "take 100 (drop 200 rows_250) = drop 200 rows_250"
    by (simp add: length_rows_250)
  moreover have "take 100 (drop 100 rows_250) @ drop 200 rows_250 = drop 100 rows_250"
    using append_take_drop_id[of 100 "drop 100 rows_250"] by simp
  ultimately show ?thesis by simp
qed

lemma orders_250_succeeds:
  "\<exists>tr'. MigrateTableData orders_250 ''Orders'' [] = Some (Inr (), tr')"
proof (rule MigrateTableData_succeeds[where columns = "[''id'', ''created'']" and totalRows = 250])
  show "GetTableColumns orders_250 ''Orders'' ([] @ [Log (MsgStartData ''Orders'')]) =
          (Inr [''id'', ''created''], [Log (MsgStartData ''Orders''), SrcQuery (QShowColumns ''Orders'')])"
    by (simp add: orders_250_def mover_defs)
  show "count_rows (sourceDB orders_250) ''Orders'' = Inr 250"
    by (simp add: orders_250_def mover_defs length_rows_250)
  show "\<forall>offset\<ge>0. \<exists>rows. select_page (sourceDB orders_250) ''Orders'' [''id'', ''created'']
            (BatchSize (config orders_250)) offset = Inr rows \<and>
          (\<forall>row\<in>set rows. length row = length [''id'', ''created''])"
  proof (intro allI impI)
    fix offset :: int assume "0 \<le> offset"
    have "\<forall>row \<in> set rows_250. length row = 2" by (auto simp: rows_250_def)
    then have "\<forall>row \<in> set (take 100 (drop (nat offset) rows_250)). length row = 2"
      by (meson in_set_takeD in_set_dropD)
    with \<open>0 \<le> offset\<close> show "\<exists>rows. select_page (sourceDB orders_250) ''Orders'' [''id'', ''created'']
            (BatchSize (config orders_250)) offset = Inr rows \<and>
          (\<forall>row\<in>set rows. length row = length [''id'', ''created''])"
      by (simp add: orders_250_def mover_defs)
  qed
qed (simp_all add: orders_250_def mover_defs)

lemma written_row_250:
  "written_row ''Orders'' [''id'', ''created''] [VInt i, VBytes ''0000-00-00''] = [VInt i, VNil]"
  by (simp add: written_row_def is_zero_date_def)

lemma written_rows_250:
  "map (\<lambda>row. (ExecInsert ''Orders'' (written_row ''Orders'' [''id'', ''created''] row),
                None :: string option)) rows_250 =
   map (\<lambda>i. (ExecInsert ''Orders'' [VInt (int i), VNil], None)) [0..<250]"
  unfolding rows_250_def map_map comp_def written_row_250 ..

lemma orders_250_batch: "BatchSize (config orders_250) = 100" by (simp add: orders_250_def mover_defs)

lemma orders_250_page_count: "[0..<page_count 250 100] = [0, 1, 2]"
  by (simp add: page_count_def upt_rec)

lemma orders_250_page: "0 \<le> offset \<Longrightarrow>
      page_rows orders_250 ''Orders'' [''id'', ''created''] offset = take 100 (drop (nat offset) rows_250)"
  by (simp add: page_rows_def orders_250_def mover_defs)

lemma orders_250_columns: "GetTableColumns orders_250 ''Orders'' ([] @ [Log (MsgStartData ''Orders'')]) =
      (Inr [''id'', ''created''], [Log (MsgStartData ''Orders''), SrcQuery (QShowColumns ''Orders'')])"
  by (simp add: orders_250_def mover_defs)

lemma orders_250_count: "count_rows (sourceDB orders_250) ''Orders'' = Inr 250"
  by (simp add: orders_250_def mover_defs length_rows_250)

lemma orders_250_page_sizes: "map (\<lambda>offset. length (page_rows orders_250 ''Orders'' [''id'', ''created''] offset))
        [0, 100, 200] = [100, 100, 50]"
  by (simp add: orders_250_page length_rows_250)

lemma orders_250_stmt_count: "length ((PrepareInsert ''Orders'' [''id'', ''created''], None :: string option) #
        map (\<lambda>i. (ExecInsert ''Orders'' [VInt (int i), VNil], None)) [0..<250]) = 251"
  by simp

lemma orders_250_all_pages:
  "concat (map (\<lambda>k. page_rows orders_250 ''Orders'' [''id'', ''created''] (int k * 100)) [0, 1, 2]) =
     rows_250"
  using rows_250_pages by (simp add: orders_250_page)

theorem paged_migration_reads_and_writes_witness:
  "\<exists>tr'. MigrateTableData orders_250 ''Orders'' [] = Some (Inr (), tr') \<and>
      page_queries tr' =
        [QSelectPage ''Orders'' [''id'', ''created''] 100 0,
         QSelectPage ''Orders'' [''id'', ''created''] 100 100,
         QSelectPage ''Orders'' [''id'', ''created''] 100 200] \<and>
      map (\<lambda>offset. length (page_rows orders_250 ''Orders'' [''id'', ''created''] offset))
        [0, 100, 200] = [100, 100, 50] \<and>
      dest_stmts tr' =
        (PrepareInsert ''Orders'' [''id'', ''created''], None) #
        map (\<lambda>i. (ExecInsert ''Orders'' [VInt (int i), VNil], None)) [0..<250] \<and>
      length (dest_stmts tr') = 251"
proof -
  from orders_250_succeeds obtain tr' where
    ok: "MigrateTableData orders_250 ''Orders'' [] = Some (Inr (), tr')" by blast
  have h3: "(250::int) + BatchSize (config orders_250) \<le> 2 ^ 63"
    by (simp add: orders_250_batch)
  have h4: "1 \<le> BatchSize (config orders_250)" by (simp add: orders_250_batch)
  have h5: "[''id'', ''created''] \<noteq> ([] :: string list)" by simp
  have h6: "(1::int) \<le> 250" by simp
  note th = paged_migration_reads_and_writes[OF orders_250_columns h5 orders_250_count h6 h4 h3 ok,
      unfolded orders_250_batch orders_250_page_count]
  from th[THEN conjunct1] have r: "page_queries tr' =
        [QSelectPage ''Orders'' [''id'', ''created''] 100 0,
         QSelectPage ''Orders'' [''id'', ''created''] 100 100,
         QSelectPage ''Orders'' [''id'', ''created''] 100 200]"
    by simp
  from th[THEN conjunct2, THEN conjunct1] have w: "dest_stmts tr' =
        (PrepareInsert ''Orders'' [''id'', ''created''], None) #
        map (\<lambda>i. (ExecInsert ''Orders'' [VInt (int i), VNil], None)) [0..<250]"
    unfolding orders_250_all_pages written_rows_250 by simp
  have "length (dest_stmts tr') = 251"
    unfolding w by (rule orders_250_stmt_count)
  with ok r orders_250_page_sizes w show ?thesis
    by (intro exI[of _ tr'] conjI)
qed

lemma MigrateTableData_terminates:
  assumes b: "1 \<le> BatchSize (config dm)"
    and rg: "\<forall>n. count_rows (sourceDB dm) t = Inr n \<longrightarrow> n + BatchSize (config dm) \<le> 2 ^ 63"
  shows "MigrateTableData dm t tr \<noteq> None"
proof -
  obtain rc tr1 where c: "GetTableColumns dm t (tr @ [Log (MsgStartData t)]) = (rc, tr1)"
    by (cases "GetTableColumns dm t (tr @ [Log (MsgStartData t)])")
  show ?thesis
  proof (cases rc)
    case (Inl e)
    with c show ?thesis by (simp add: MigrateTableData_def)
  next
    case (Inr columns)
    note cols = this
    show ?thesis
    proof (cases "columns = []")
      case True
      with c cols show ?thesis by (simp add: MigrateTableData_def)
    next
      case ne: False
      show ?thesis
      proof (cases "count_rows (sourceDB dm) t")
        case (Inl e)
        with c cols ne show ?thesis by (simp add: MigrateTableData_def GetTableRowCount_def)
      next
        case (Inr n)
        show ?thesis
        proof (cases "n = 0")
          case True
          with c cols ne Inr show ?thesis by (simp add: MigrateTableData_def GetTableRowCount_def)
        next
          case False
          from rg Inr have "n + BatchSize (config dm) \<le> 2 ^ 63" by blast
          from paging_loop_terminates[OF b this, of 0 t columns 0
              "tr @ [Log (MsgStartData t), SrcQuery (QShowColumns t), SrcQuery (QCountRows t),
                     Log (MsgRowCount t n), DstExec (PrepareInsert t columns) None]"]
          obtain y where "paging_loop dm t columns n 0 0
              (tr @ [Log (MsgStartData t), SrcQuery (QShowColumns t), SrcQuery (QCountRows t),
                     Log (MsgRowCount t n), DstExec (PrepareInsert t columns) None]) = Some y"
            by auto
          then show ?thesis
            unfolding MigrateTableData_nonempty[OF c[unfolded cols] ne Inr False]
            by (simp split: option.splits sum.splits prod.splits)
        qed
      qed
    qed
  qed
qed

text \<open>
  Claim C10, amended. With a batch size of at least 1 (and row count plus batch size within
  the range of \<open>int\<close>), \<open>MigrateTableData\<close> returns for every table, whatever the source and
  the destination answer. With a batch size of 0 and a positive row count it never returns,
  provided the insert can be prepared, the page at offset 0 can be read and its rows can be
  scanned and inserted. (For a negative batch size the loop may end: see the counterexample
  below.)
\<close>

theorem paging_terminates_for_positive_batch:
  "(1 \<le> BatchSize (config dm) \<and>
    (\<forall>n. count_rows (sourceDB dm) t = Inr n \<longrightarrow> n + BatchSize (config dm) \<le> 2 ^ 63)
      \<longrightarrow> MigrateTableData dm t tr \<noteq> None) \<and>
   (BatchSize (config dm) = 0 \<and>
    GetTableColumns dm t (tr @ [Log (MsgStartData t)]) = (Inr columns, tr1) \<and> columns \<noteq> [] \<and>
    count_rows (sourceDB dm) t = Inr totalRows \<and> 0 < totalRows \<and>
    (\<forall>tr0. destDB dm tr0 (PrepareInsert t columns) = None) \<and>
    select_page (sourceDB dm) t columns 0 0 = Inr rows \<and>
    (\<forall>m tr0. \<exists>m' tr'. process_rows dm t columns rows m tr0 = (Inr m', tr'))
      \<longrightarrow> MigrateTableData dm t tr = None)"
proof (intro conjI impI)
  assume "1 \<le> BatchSize (config dm) \<and>
    (\<forall>n. count_rows (sourceDB dm) t = Inr n \<longrightarrow> n + BatchSize (config dm) \<le> 2 ^ 63)"
  then show "MigrateTableData dm t tr \<noteq> None"
    using MigrateTableData_terminates by blast
next
  assume a: "BatchSize (config dm) = 0 \<and>
    GetTableColumns dm t (tr @ [Log (MsgStartData t)]) = (Inr columns, tr1) \<and> columns \<noteq> [] \<and>
    count_rows (sourceDB dm) t = Inr totalRows \<and> 0 < totalRows \<and>
    (\<forall>tr0. destDB dm tr0 (PrepareInsert t columns) = None) \<and>
    select_page (sourceDB dm) t columns 0 0 = Inr rows \<and>
    (\<forall>m tr0. \<exists>m' tr'. process_rows dm t columns rows m tr0 = (Inr m', tr'))"
  then have nz: "totalRows \<noteq> 0" by simp
  have rg: "int64_range 0" by (simp add: int64_range_def)
  from a have "paging_loop dm t columns totalRows 0 0
       (tr @ [Log (MsgStartData t), SrcQuery (QShowColumns t), SrcQuery (QCountRows t),
              Log (MsgRowCount t totalRows), DstExec (PrepareInsert t columns) None]) = None"
    by (intro paging_loop_diverges[where rows = rows] rg) simp_all
  with a show "MigrateTableData dm t tr = None"
    using MigrateTableData_nonempty[of dm t tr columns tr1 totalRows, OF _ _ _ nz] by simp
qed

theorem paging_terminates_for_positive_batch_witness:
  "MigrateTableData orders_250 ''Orders'' [] \<noteq> None \<and>
   MigrateTableData zero_batch ''Orders'' [] = None"
proof
  show "MigrateTableData orders_250 ''Orders'' [] \<noteq> None"
    using paging_terminates_for_positive_batch[of orders_250 "''Orders''" "[]" "[]" "[]" 0 "[]"]
    by (simp add: orders_250_def mover_defs length_rows_250)
  show "MigrateTableData zero_batch ''Orders'' [] = None"
    using paging_terminates_for_positive_batch[of zero_batch "''Orders''" "[]" "[''id'']"
        "[Log (MsgStartData ''Orders''), SrcQuery (QShowColumns ''Orders'')]" 1 "[]"]
    by (simp add: zero_batch_def mover_defs)
qed

text \<open>
  The claim C10 as stated fails for a negative batch size. A source that rejects a negative
  limit ends the migration of the table with an error at the first page. A source that
  answers every page lets the offset run through \<open>0\<close>, \<open>- 2 ^ 62\<close> and \<open>- 2 ^ 63\<close>, wrap
  around to \<open>2 ^ 62\<close>, and the loop ends with success.
\<close>

theorem nonpositive_batch_counterexample:
  "BatchSize (config negative_batch_rejected) = - 1 \<and>
   count_rows (sourceDB negative_batch_rejected) ''Orders'' = Inr 1 \<and>
   MigrateTableData negative_batch_rejected ''Orders'' [] =
     Some (Inl (Wrap (CtxSelectData ''Orders'') (Driver ''syntax error'')),
           [Log (MsgStartData ''Orders''), SrcQuery (QShowColumns ''Orders''),
            SrcQuery (QCountRows ''Orders''), Log (MsgRowCount ''Orders'' 1),
            DstExec (PrepareInsert ''Orders'' [''id'']) None,
            SrcQuery (QSelectPage ''Orders'' [''id''] (- 1) 0)]) \<and>
   BatchSize (config negative_batch_wraps) = - (2 ^ 62) \<and>
   count_rows (sourceDB negative_batch_wraps) ''Orders'' = Inr 1 \<and>
   MigrateTableData negative_batch_wraps ''Orders'' [] =
     Some (Inr (),
           [Log (MsgStartData ''Orders''), SrcQuery (QShowColumns ''Orders''),
            SrcQuery (QCountRows ''Orders''), Log (MsgRowCount ''Orders'' 1),
            DstExec (PrepareInsert ''Orders'' [''id'']) None,
            SrcQuery (QSelectPage ''Orders'' [''id''] (- (2 ^ 62)) 0),
            Log (MsgProgress ''Orders'' 0 1),
            SrcQuery (QSelectPage ''Orders'' [''id''] (- (2 ^ 62)) (- (2 ^ 62))),
            Log (MsgProgress ''Orders'' 0 1),
            SrcQuery (QSelectPage ''Orders'' [''id''] (- (2 ^ 62)) (- (2 ^ 63))),
            Log (MsgProgress ''Orders'' 0 1),
            Log (MsgCompletedData ''Orders'' 0)])"
  by (simp add: negative_batch_rejected_def negative_batch_wraps_def mover_defs
      MigrateTableData_def paging_loop.simps wrap64_def)

section \<open>Properties of the run orchestrator\<close>


lemma enable_calls_simps [simp]:
  "enable_calls [] = 0"
  "enable_calls (Log msg # tr) = enable_calls tr"
  "enable_calls (SrcQuery q # tr) = enable_calls tr"
  "enable_calls (DstExec stmt outcome # tr) =
     (if stmt = SetForeignKeyChecks True then 1 else 0) + enable_calls tr"
  by (simp_all add: enable_calls_def)


















end
